theory Spec2Isabelle
  imports Complex_Main "HOL-Library.Sublist"
begin

section \<open>JavaScript numbers\<close>

text \<open>
  A \<open>number\<close> is an IEEE 754 double: a finite value, which is a rational, one of the two
  infinities, or NaN. The sign of zero is not kept: the code never divides by a zero.
\<close>

datatype double = Num rat | Infinity | MinusInfinity | NaN

text \<open>The number of binary digits of a natural number.\<close>

fun bitLength :: "nat \<Rightarrow> nat" where
  "bitLength n = (if n = 0 then 0 else Suc (bitLength (n div 2)))"

declare bitLength.simps [simp del]

definition pow2 :: "int \<Rightarrow> rat" where
  "pow2 k = (if 0 \<le> k then 2 ^ nat k else 1 / 2 ^ nat (- k))"

text \<open>For a positive \<open>a\<close>, the exponent \<open>e\<close> with \<open>2 ^ e \<le> a < 2 ^ (e + 1)\<close>.\<close>

definition ilog2 :: "rat \<Rightarrow> int" where
  "ilog2 a =
     (if 1 \<le> a then int (bitLength (nat \<lfloor>a\<rfloor>)) - 1
      else - int (bitLength (nat (\<lceil>1 / a\<rceil> - 1))))"

text \<open>Rounding to the nearest integer, a tie going to the even one.\<close>

definition roundHalfEven :: "rat \<Rightarrow> int" where
  "roundHalfEven x =
     (let f = \<lfloor>x\<rfloor>; d = x - of_int f
      in if d < 1 / 2 then f
         else if 1 / 2 < d then f + 1
         else if even f then f else f + 1)"

text \<open>
  The exponent of the doubles around a positive \<open>a\<close>: that of \<open>a\<close>, or -1022 for the
  subnormal range. Doubles of that exponent are the multiples of \<open>2 ^ (e - 52)\<close>.
\<close>

definition binade :: "rat \<Rightarrow> int" where
  "binade a = max (ilog2 a) (- 1022)"

definition roundPositive :: "rat \<Rightarrow> rat" where
  "roundPositive a =
     (let q = pow2 (binade a - 52)
      in of_int (roundHalfEven (a / q)) * q)"

text \<open>
  The double nearest to a rational, a tie going to the even significand; a value that
  rounds to \<open>2 ^ 1024\<close> or more is an infinity. This is how a decimal literal is read and
  how the exact result of an operation is rounded.
\<close>

definition toDouble :: "rat \<Rightarrow> double" where
  "toDouble x =
     (if x = 0 then Num 0
      else if 0 < x then
        (if roundPositive x < 2 ^ 1024 then Num (roundPositive x) else Infinity)
      else
        (if roundPositive (- x) < 2 ^ 1024 then Num (- roundPositive (- x)) else MinusInfinity))"

text \<open>\<open>x < y\<close>; a comparison with NaN is false.\<close>

fun dless :: "double \<Rightarrow> double \<Rightarrow> bool" where
  "dless NaN y = False"
| "dless x NaN = False"
| "dless (Num a) (Num b) = (a < b)"
| "dless x MinusInfinity = False"
| "dless Infinity y = False"
| "dless MinusInfinity y = True"
| "dless x Infinity = True"

definition dgt :: "double \<Rightarrow> double \<Rightarrow> bool" where
  "dgt x y = dless y x"

fun dneg :: "double \<Rightarrow> double" where
  "dneg (Num a) = Num (- a)"
| "dneg Infinity = MinusInfinity"
| "dneg MinusInfinity = Infinity"
| "dneg NaN = NaN"

text \<open>\<open>x + y\<close>: the exact sum rounded; an infinity minus itself is NaN.\<close>

fun dadd :: "double \<Rightarrow> double \<Rightarrow> double" where
  "dadd NaN y = NaN"
| "dadd x NaN = NaN"
| "dadd (Num a) (Num b) = toDouble (a + b)"
| "dadd Infinity MinusInfinity = NaN"
| "dadd MinusInfinity Infinity = NaN"
| "dadd Infinity y = Infinity"
| "dadd x Infinity = Infinity"
| "dadd MinusInfinity y = MinusInfinity"
| "dadd x MinusInfinity = MinusInfinity"

definition dsub :: "double \<Rightarrow> double \<Rightarrow> double" where
  "dsub x y = dadd x (dneg y)"

fun ddiv :: "double \<Rightarrow> double \<Rightarrow> double" where
  "ddiv NaN y = NaN"
| "ddiv x NaN = NaN"
| "ddiv (Num a) (Num b) =
     (if b = 0 then (if a = 0 then NaN else if 0 < a then Infinity else MinusInfinity)
      else toDouble (a / b))"
| "ddiv (Num a) y = Num 0"
| "ddiv Infinity (Num b) = (if b < 0 then MinusInfinity else Infinity)"
| "ddiv MinusInfinity (Num b) = (if b < 0 then Infinity else MinusInfinity)"
| "ddiv x y = NaN"

definition isNaN :: "double \<Rightarrow> bool" where
  "isNaN x \<longleftrightarrow> x = NaN"

definition isFinite :: "double \<Rightarrow> bool" where
  "isFinite x \<longleftrightarrow> (case x of Num a \<Rightarrow> True | _ \<Rightarrow> False)"

text \<open>\<open>x \<le> y\<close> for two doubles that are not NaN.\<close>

definition dle :: "double \<Rightarrow> double \<Rightarrow> bool" where
  "dle x y \<longleftrightarrow> x \<noteq> NaN \<and> y \<noteq> NaN \<and> \<not> dless y x"

section \<open>Data model of \<open>logs_parser.tsx\<close>\<close>

text \<open>
  The amount of a damage event and the damage rate computed from the amounts are
  doubles. A \<open>number\<close> that carries a time, a threat or a resource value is a rational,
  the value of a finite double: the pairing of casts and auras compares and subtracts
  timestamps only. Where the damage rate compares timestamps it reads them as doubles.
  Counters and indices are integers.

  The action identifier class lives in \<open>action_id.js\<close>, outside the parser. It is a type
  parameter \<open>'aid\<close>; the operations the parser calls on it travel in a record.
\<close>

record 'aid ActionIdOps =
  equals :: "'aid \<Rightarrow> 'aid \<Rightarrow> bool"
  equalsIgnoringTag :: "'aid \<Rightarrow> 'aid \<Rightarrow> bool"
  toString :: "'aid \<Rightarrow> string"
  toStringIgnoringTag :: "'aid \<Rightarrow> string"
  spellId :: "'aid \<Rightarrow> int"

record Entity =
  name :: string
  ownerName :: string
  index :: int
  isTarget :: bool
  isPet :: bool

definition Entity_equals :: "Entity \<Rightarrow> Entity \<Rightarrow> bool" where
  "Entity_equals this other \<longleftrightarrow>
     isTarget this = isTarget other \<and> isPet this = isPet other \<and>
     index this = index other \<and> name this = name other"

record 'aid SimLogParams =
  raw :: string
  logIndex :: nat
  timestamp :: rat
  source :: "Entity option"
  target :: "Entity option"
  actionId :: "'aid option"
  spellSchool :: "int option"
  threat :: rat

record 'aid DamageDealtLog = "'aid SimLogParams" +
  amount :: double
  dtype :: string
  miss :: bool
  hit :: bool
  crit :: bool
  crush :: bool
  glance :: bool
  dodge :: bool
  parry :: bool
  block :: bool
  tick :: bool
  partialResist1_4 :: bool
  partialResist2_4 :: bool
  partialResist3_4 :: bool

record 'aid CastBeganLog = "'aid SimLogParams" +
  manaCost :: rat
  castTime :: rat
  effectiveTime :: rat

type_synonym 'aid CastCompletedLog = "'aid SimLogParams"

record 'aid CastLog = "'aid SimLogParams" +
  castTime :: rat
  effectiveTime :: rat
  travelTime :: rat
  castBeganLog :: "'aid CastBeganLog"
  castCompletedLog :: "'aid CastCompletedLog option"
  damageDealtLogs :: "'aid DamageDealtLog list"

record 'aid DpsLog = "'aid SimLogParams" +
  dps :: double
  damageLogs :: "'aid DamageDealtLog list"

record 'aid AuraEventLog = "'aid SimLogParams" +
  isGained :: bool
  isFaded :: bool
  isRefreshed :: bool

record 'aid AuraStacksChangeLog = "'aid SimLogParams" +
  oldStacks :: int
  newStacks :: int

record 'aid AuraUptimeLog = "'aid SimLogParams" +
  gainedAt :: rat
  fadedAt :: rat
  stacksChange :: "'aid AuraStacksChangeLog list"

text \<open>
  \<open>ResourceType\<close> and \<open>SecondaryResourceType\<close> are numeric enums of the generated
  protocol code; their values are integers here.
\<close>

record 'aid ResourceChangedLog = "'aid SimLogParams" +
  resourceType :: int
  valueBefore :: rat
  valueAfter :: rat
  isSpend :: bool
  total :: rat
  secondaryResourceType :: "int option"

record 'aid ResourceChangedLogGroup = "'aid SimLogParams" +
  resourceType :: int
  valueBefore :: rat
  valueAfter :: rat
  maxValue :: rat
  logs :: "'aid ResourceChangedLog list"

record 'aid StatChangeLog = "'aid SimLogParams" +
  isGain :: bool
  stats :: string

type_synonym 'aid MajorCooldownUsedLog = "'aid SimLogParams"

text \<open>
  An \<open>Array<SimLog>\<close> holds instances of the base class and of its subclasses, told
  apart by \<open>instanceof\<close>: one constructor per class the parser creates. \<open>Plain\<close> is an
  instance of \<open>SimLog\<close> itself.
\<close>

datatype 'aid SimLog =
    Plain "'aid SimLogParams"
  | DamageDealt "'aid DamageDealtLog"
  | ResourceChanged "'aid ResourceChangedLog"
  | AuraEvent "'aid AuraEventLog"
  | AuraStacksChange "'aid AuraStacksChangeLog"
  | MajorCooldownUsed "'aid MajorCooldownUsedLog"
  | CastBegan "'aid CastBeganLog"
  | CastCompleted "'aid CastCompletedLog"
  | StatChange "'aid StatChangeLog"

fun params :: "'aid SimLog \<Rightarrow> 'aid SimLogParams" where
  "params (Plain l) = l"
| "params (DamageDealt l) = SimLogParams.truncate l"
| "params (ResourceChanged l) = SimLogParams.truncate l"
| "params (AuraEvent l) = SimLogParams.truncate l"
| "params (AuraStacksChange l) = SimLogParams.truncate l"
| "params (MajorCooldownUsed l) = l"
| "params (CastBegan l) = SimLogParams.truncate l"
| "params (CastCompleted l) = l"
| "params (StatChange l) = SimLogParams.truncate l"

fun isDamageDealt :: "'aid SimLog \<Rightarrow> 'aid DamageDealtLog option" where
  "isDamageDealt (DamageDealt l) = Some l"
| "isDamageDealt _ = None"

fun isResourceChanged :: "'aid SimLog \<Rightarrow> 'aid ResourceChangedLog option" where
  "isResourceChanged (ResourceChanged l) = Some l"
| "isResourceChanged _ = None"

fun isCastBegan :: "'aid SimLog \<Rightarrow> 'aid CastBeganLog option" where
  "isCastBegan (CastBegan l) = Some l"
| "isCastBegan _ = None"

fun isCastCompleted :: "'aid SimLog \<Rightarrow> 'aid CastCompletedLog option" where
  "isCastCompleted (CastCompleted l) = Some l"
| "isCastCompleted _ = None"

section \<open>Errors\<close>

text \<open>
  Reading a property of \<open>null\<close> or \<open>undefined\<close> throws a \<open>TypeError\<close>, and the code
  throws an \<open>Error\<close> with a message of its own; both leave the function that was running.
  The functions below return a sum, with the error on the left.
\<close>

datatype error = TypeError | Error string

fun mapE :: "('a \<Rightarrow> error + 'b) \<Rightarrow> 'a list \<Rightarrow> error + 'b list" where
  "mapE f [] = Inr []"
| "mapE f (x # xs) =
     (case f x of
        Inl e \<Rightarrow> Inl e
      | Inr y \<Rightarrow> (case mapE f xs of Inl e \<Rightarrow> Inl e | Inr ys \<Rightarrow> Inr (y # ys)))"

text \<open>\<open>Array.map\<close> with a callback that reads and writes variables of the enclosing function.\<close>

fun mapAccumE :: "('s \<Rightarrow> 'a \<Rightarrow> error + ('s \<times> 'b)) \<Rightarrow> 's \<Rightarrow> 'a list \<Rightarrow> error + 'b list" where
  "mapAccumE f s [] = Inr []"
| "mapAccumE f s (x # xs) =
     (case f s x of
        Inl e \<Rightarrow> Inl e
      | Inr (s', y) \<Rightarrow>
          (case mapAccumE f s' xs of Inl e \<Rightarrow> Inl e | Inr ys \<Rightarrow> Inr (y # ys)))"

section \<open>\<open>SimLog.groupDuplicateTimestamps\<close>\<close>

text \<open>
  The loop over the logs carries \<open>grouped\<close> and \<open>curGroup\<close>; the last equation is the
  code after the loop.
\<close>

fun groupLoop ::
  "('aid, 'z) SimLogParams_scheme list list \<Rightarrow> ('aid, 'z) SimLogParams_scheme list
     \<Rightarrow> ('aid, 'z) SimLogParams_scheme list \<Rightarrow> ('aid, 'z) SimLogParams_scheme list list" where
  "groupLoop grouped curGroup [] =
     (if length curGroup > 0 then grouped @ [curGroup] else grouped)"
| "groupLoop grouped curGroup (lg # rest) =
     (case curGroup of
        [] \<Rightarrow> groupLoop grouped (curGroup @ [lg]) rest
      | c0 # _ \<Rightarrow>
          (if timestamp lg = timestamp c0 then groupLoop grouped (curGroup @ [lg]) rest
           else groupLoop (grouped @ [curGroup]) [lg] rest))"

definition groupDuplicateTimestamps ::
  "('aid, 'z) SimLogParams_scheme list \<Rightarrow> ('aid, 'z) SimLogParams_scheme list list" where
  "groupDuplicateTimestamps ls = groupLoop [] [] ls"

section \<open>\<open>DpsLog.fromLogs\<close>\<close>

definition DPS_WINDOW :: double where
  "DPS_WINDOW = Num 15"

text \<open>
  The \<open>findIndex\<close> over \<open>curDamageLogs\<close>: its callback subtracts from \<open>curDamageTotal\<close>
  the amount of every log it visits that is not in the window, and the search stops at the
  first log in the window. The result is the index (\<open>None\<close> for -1) and the new total.
  The test \<open>curLog.timestamp > ddLogGroup[0].timestamp - DPS_WINDOW\<close> is one of doubles:
  the difference is rounded.
\<close>

fun findIndex_inWindow ::
  "rat \<Rightarrow> 'aid DamageDealtLog list \<Rightarrow> double \<Rightarrow> nat option \<times> double" where
  "findIndex_inWindow t0 [] curDamageTotal = (None, curDamageTotal)"
| "findIndex_inWindow t0 (curLog # rest) curDamageTotal =
     (if dgt (toDouble (timestamp curLog)) (dsub (toDouble t0) DPS_WINDOW)
      then (Some 0, curDamageTotal)
      else (case findIndex_inWindow t0 rest (dsub curDamageTotal (amount curLog)) of
              (None, t) \<Rightarrow> (None, t)
            | (Some i, t) \<Rightarrow> (Some (Suc i), t)))"

definition DpsLog_ofGroup ::
  "'aid DamageDealtLog list \<times> double \<Rightarrow> 'aid DamageDealtLog list
     \<Rightarrow> error + (('aid DamageDealtLog list \<times> double) \<times> 'aid DpsLog)" where
  "DpsLog_ofGroup st ddLogGroup =
     (case ddLogGroup of
        [] \<Rightarrow> Inl TypeError
      | g0 # _ \<Rightarrow>
          (let pushed = fst st @ ddLogGroup;
               added = foldl (\<lambda>t ddLog. dadd t (amount ddLog)) (snd st) ddLogGroup;
               found = findIndex_inWindow (timestamp g0) pushed added;
               curDamageLogs = (case fst found of None \<Rightarrow> [] | Some i \<Rightarrow> drop i pushed);
               curDamageTotal = snd found
           in Inr ((curDamageLogs, curDamageTotal),
                \<lparr> raw = [], logIndex = logIndex g0, timestamp = timestamp g0,
                  source = source g0, target = None, actionId = None,
                  spellSchool = spellSchool g0, threat = 0,
                  dps = ddiv curDamageTotal DPS_WINDOW, damageLogs = ddLogGroup \<rparr>)))"

definition DpsLog_fromLogs :: "'aid DamageDealtLog list \<Rightarrow> error + 'aid DpsLog list" where
  "DpsLog_fromLogs dds =
     mapAccumE DpsLog_ofGroup ([], Num 0) (groupDuplicateTimestamps dds)"

section \<open>\<open>ResourceChangedLogGroup.fromLogs\<close>\<close>

definition maxResource :: "'aid ResourceChangedLog list \<Rightarrow> rat" where
  "maxResource ls =
     foldl (\<lambda>mx l. if ResourceChangedLog.total l > mx then ResourceChangedLog.total l else mx)
       0 ls"

definition ResourceChangedLogGroup_ofGroup ::
  "int \<Rightarrow> 'aid ResourceChangedLog list \<Rightarrow> error + 'aid ResourceChangedLogGroup" where
  "ResourceChangedLogGroup_ofGroup rt logGroup =
     (case logGroup of
        [] \<Rightarrow> Inl TypeError
      | g0 # _ \<Rightarrow>
          Inr \<lparr> raw = [], logIndex = logIndex g0, timestamp = timestamp g0,
                source = source g0, target = target g0, actionId = None,
                spellSchool = spellSchool g0, threat = 0,
                resourceType = rt,
                valueBefore = ResourceChangedLog.valueBefore g0,
                valueAfter = ResourceChangedLog.valueAfter (last logGroup),
                maxValue = maxResource logGroup,
                logs = logGroup \<rparr>)"

text \<open>
  The enum \<open>ResourceType\<close> is declared in \<open>proto/spell\<close>, outside the parser: the list
  of its values (what \<open>getEnumValues\<close> returns) and the value \<open>ResourceTypeNone\<close> are
  parameters. The result object, keyed by resource type, is an association list with one
  entry per resource type of the filtered enum.
\<close>

definition ResourceChangedLogGroup_fromLogs ::
  "int list \<Rightarrow> int \<Rightarrow> 'aid SimLog list
     \<Rightarrow> error + (int \<times> 'aid ResourceChangedLogGroup list) list" where
  "ResourceChangedLogGroup_fromLogs enumValues ResourceTypeNone ls =
     (let allResourceChangedLogs = List.map_filter isResourceChanged ls;
          resourceTypes = filter (\<lambda>val. val \<noteq> ResourceTypeNone) enumValues
      in mapE (\<lambda>rt.
            (let resourceChangedLogs =
                   filter (\<lambda>l. ResourceChangedLog.resourceType l = rt) allResourceChangedLogs;
                 groupedLogs = groupDuplicateTimestamps resourceChangedLogs
             in case mapE (ResourceChangedLogGroup_ofGroup rt) groupedLogs of
                  Inl e \<Rightarrow> Inl e
                | Inr gs \<Rightarrow> Inr (rt, gs)))
          resourceTypes)"

section \<open>\<open>AuraUptimeLog.fromLogs\<close>\<close>

definition AuraUptimeLog_new ::
  "'aid SimLogParams \<Rightarrow> rat \<Rightarrow> 'aid AuraStacksChangeLog list \<Rightarrow> 'aid AuraUptimeLog" where
  "AuraUptimeLog_new p fadedAt' sc =
     \<lparr> raw = raw p, logIndex = logIndex p, timestamp = timestamp p, source = source p,
       target = target p, actionId = actionId p, spellSchool = spellSchool p,
       threat = threat p,
       gainedAt = timestamp p, fadedAt = fadedAt', stacksChange = sc \<rparr>"

text \<open>An element \<open>{ gained, stacks }\<close> of \<open>unmatchedGainedLogs\<close>.\<close>

record 'aid UnmatchedGained =
  gained :: "'aid AuraEventLog"
  stacks :: "'aid AuraStacksChangeLog list"

text \<open>
  The callback of both \<open>findIndex\<close> calls:
  \<open>gainedLog.gained.actionId!.equals(log.actionId!) ||
  gainedLog.gained.actionId!.equalsIgnoringTag(log.actionId!)\<close>. The \<open>!\<close> is erased by the
  compiler: a call on a null receiver throws, and the comparison with a null argument is
  taken to throw as well.
\<close>

definition matchesGained ::
  "'aid ActionIdOps \<Rightarrow> 'aid option \<Rightarrow> 'aid UnmatchedGained \<Rightarrow> error + bool" where
  "matchesGained ops logAid gainedLog =
     (case actionId (gained gainedLog) of
        None \<Rightarrow> Inl TypeError
      | Some g \<Rightarrow>
          (case logAid of
             None \<Rightarrow> Inl TypeError
           | Some a \<Rightarrow> Inr (equals ops g a \<or> equalsIgnoringTag ops g a)))"

text \<open>\<open>Array.findIndex\<close> with a callback that can throw; \<open>None\<close> is the result -1.\<close>

fun findIndexE :: "('a \<Rightarrow> error + bool) \<Rightarrow> 'a list \<Rightarrow> error + nat option" where
  "findIndexE p [] = Inr None"
| "findIndexE p (x # xs) =
     (case p x of
        Inl e \<Rightarrow> Inl e
      | Inr True \<Rightarrow> Inr (Some 0)
      | Inr False \<Rightarrow>
          (case findIndexE p xs of
             Inl e \<Rightarrow> Inl e
           | Inr None \<Rightarrow> Inr None
           | Inr (Some i) \<Rightarrow> Inr (Some (Suc i))))"

text \<open>\<open>Array.forEach\<close> with a callback that updates variables of the enclosing function.\<close>

fun foldE :: "('s \<Rightarrow> 'a \<Rightarrow> error + 's) \<Rightarrow> 's \<Rightarrow> 'a list \<Rightarrow> error + 's" where
  "foldE f s [] = Inr s"
| "foldE f s (x # xs) = (case f s x of Inl e \<Rightarrow> Inl e | Inr s' \<Rightarrow> foldE f s' xs)"

text \<open>
  The unmatched branch: \<open>console.warn\<close> reads \<open>log.actionId!.name\<close>, then the callback
  returns and the lists stay as they are.
\<close>

definition warnUnmatched :: "'aid option \<Rightarrow> 's \<Rightarrow> error + 's" where
  "warnUnmatched logAid st = (case logAid of None \<Rightarrow> Inl TypeError | Some _ \<Rightarrow> Inr st)"

text \<open>
  The uptime log pushed when the fade or refresh \<open>l\<close> closes the entry \<open>m\<close>
  (lines 720 to 735).
\<close>

definition closedBy :: "'aid AuraEventLog \<Rightarrow> 'aid UnmatchedGained \<Rightarrow> 'aid AuraUptimeLog" where
  "closedBy l m =
     AuraUptimeLog_new
       \<lparr> raw = raw l, logIndex = logIndex (gained m), timestamp = timestamp (gained m),
         source = source l, target = target l, actionId = actionId (gained m),
         spellSchool = spellSchool l, threat = threat (gained m) \<rparr>
       (timestamp l) (stacks m)"

text \<open>
  The uptime log pushed for an entry that is still open after the loop
  (lines 745 to 760).
\<close>

definition closedAtEnd :: "rat \<Rightarrow> 'aid UnmatchedGained \<Rightarrow> 'aid AuraUptimeLog" where
  "closedAtEnd encounterDuration m =
     AuraUptimeLog_new
       \<lparr> raw = raw (gained m), logIndex = logIndex (gained m),
         timestamp = timestamp (gained m), source = source (gained m),
         target = target (gained m), actionId = actionId (gained m),
         spellSchool = spellSchool (gained m), threat = threat (gained m) \<rparr>
       encounterDuration (stacks m)"

text \<open>
  One run of the callback of \<open>logs.forEach\<close>. The state is the pair of
  \<open>unmatchedGainedLogs\<close> and \<open>uptimeLogs\<close>.
\<close>

definition auraStep ::
  "'aid ActionIdOps \<Rightarrow> Entity
     \<Rightarrow> 'aid UnmatchedGained list \<times> 'aid AuraUptimeLog list \<Rightarrow> 'aid SimLog
     \<Rightarrow> error + ('aid UnmatchedGained list \<times> 'aid AuraUptimeLog list)" where
  "auraStep ops entity st lg =
     (case source (params lg) of
        None \<Rightarrow> Inr st
      | Some s \<Rightarrow>
          if \<not> Entity_equals s entity then Inr st
          else
            (case lg of
               AuraStacksChange l \<Rightarrow>
                 if newStacks l \<le> 0 then Inr st
                 else
                   (case findIndexE (matchesGained ops (actionId l)) (fst st) of
                      Inl e \<Rightarrow> Inl e
                    | Inr None \<Rightarrow> warnUnmatched (actionId l) st
                    | Inr (Some i) \<Rightarrow>
                        Inr ((fst st)[i := (fst st ! i)\<lparr>stacks := stacks (fst st ! i) @ [l]\<rparr>],
                             snd st))
             | AuraEvent l \<Rightarrow>
                 if isGained l then Inr (fst st @ [\<lparr>gained = l, stacks = []\<rparr>], snd st)
                 else
                   (case findIndexE (matchesGained ops (actionId l)) (fst st) of
                      Inl e \<Rightarrow> Inl e
                    | Inr None \<Rightarrow> warnUnmatched (actionId l) st
                    | Inr (Some i) \<Rightarrow>
                        Inr ((take i (fst st) @ drop (Suc i) (fst st)) @
                               (if isRefreshed l then [\<lparr>gained = l, stacks = []\<rparr>] else []),
                             snd st @ [closedBy l (fst st ! i)]))
             | _ \<Rightarrow> Inr st))"

text \<open>The array \<open>uptimeLogs\<close> before the final sort: the loop, then the entries still open.\<close>

definition uptimeLogs_unsorted ::
  "'aid ActionIdOps \<Rightarrow> 'aid SimLog list \<Rightarrow> Entity \<Rightarrow> rat \<Rightarrow> error + 'aid AuraUptimeLog list" where
  "uptimeLogs_unsorted ops ls entity encounterDuration =
     (case foldE (auraStep ops entity) ([], []) ls of
        Inl e \<Rightarrow> Inl e
      | Inr st \<Rightarrow> Inr (snd st @ map (closedAtEnd encounterDuration) (fst st)))"

text \<open>
  \<open>Array.sort\<close> is stable, and the comparator \<open>a.gainedAt - b.gainedAt\<close> orders by
  \<open>gainedAt\<close>: the insertion sort by key of the library, which is stable too.
\<close>

definition AuraUptimeLog_fromLogs ::
  "'aid ActionIdOps \<Rightarrow> 'aid SimLog list \<Rightarrow> Entity \<Rightarrow> rat \<Rightarrow> error + 'aid AuraUptimeLog list" where
  "AuraUptimeLog_fromLogs ops ls entity encounterDuration =
     (case uptimeLogs_unsorted ops ls entity encounterDuration of
        Inl e \<Rightarrow> Inl e
      | Inr uptimeLogs \<Rightarrow> Inr (sort_key gainedAt uptimeLogs))"

section \<open>The constructor of \<open>CastLog\<close>\<close>

text \<open>
  \<open>a || b\<close> on a nullable object takes \<open>b\<close> exactly when \<open>a\<close> is null
  (or, with \<open>?.\<close>, when the receiver is null); on a nullable number also when it is 0.
\<close>

definition or_object :: "'a option \<Rightarrow> 'a option \<Rightarrow> 'a option" where
  "or_object a b = (case a of Some x \<Rightarrow> Some x | None \<Rightarrow> b)"

definition or_nullable_number :: "int option \<Rightarrow> int option \<Rightarrow> int option" where
  "or_nullable_number a b =
     (case a of Some x \<Rightarrow> (if x = 0 then b else Some x) | None \<Rightarrow> b)"

definition or_number :: "rat option \<Rightarrow> rat \<Rightarrow> rat" where
  "or_number a b = (case a of Some x \<Rightarrow> (if x = 0 then b else x) | None \<Rightarrow> b)"

definition CastLog_new ::
  "'aid CastBeganLog \<Rightarrow> 'aid CastCompletedLog option \<Rightarrow> 'aid DamageDealtLog list
     \<Rightarrow> 'aid CastLog" where
  "CastLog_new cb cc dds =
     \<lparr> raw = raw cb,
       logIndex = logIndex cb,
       timestamp = timestamp cb,
       source = source cb,
       target = target cb,
       actionId = or_object (Option.bind cc actionId) (actionId cb),
       spellSchool = or_nullable_number (Option.bind cc spellSchool) (spellSchool cb),
       threat = or_number (map_option threat cc) (threat cb),
       castTime = (case cc of Some c \<Rightarrow> timestamp c - timestamp cb
                   | None \<Rightarrow> CastBeganLog.castTime cb),
       effectiveTime = (case cc of Some c \<Rightarrow> timestamp c - timestamp cb
                        | None \<Rightarrow> CastBeganLog.effectiveTime cb),
       travelTime =
         (case cc of
            Some c \<Rightarrow>
              (case dds of
                 [d] \<Rightarrow> (if timestamp c < timestamp d \<and> \<not> tick d
                          then timestamp d - timestamp c else 0)
               | _ \<Rightarrow> 0)
          | None \<Rightarrow> 0),
       castBeganLog = cb,
       castCompletedLog = cc,
       damageDealtLogs = dds \<rparr>"

section \<open>\<open>CastLog.fromLogs\<close>\<close>

definition toBucketKey :: "'aid ActionIdOps \<Rightarrow> 'aid \<Rightarrow> string" where
  "toBucketKey ops a =
     (if spellId ops a = 30451 \<or> spellId ops a = 127632 then toStringIgnoringTag ops a
      else toString ops a)"

text \<open>The key function passed to \<open>bucket\<close>: \<open>log => toBucketKey(log.actionId!)\<close>.\<close>

definition bucketKeyOf :: "'aid ActionIdOps \<Rightarrow> ('aid, 'z) SimLogParams_scheme \<Rightarrow> error + string" where
  "bucketKeyOf ops l =
     (case actionId l of None \<Rightarrow> Inl TypeError | Some a \<Rightarrow> Inr (toBucketKey ops a))"

text \<open>
  Modelled from the spec: \<open>bucket\<close> of \<open>utils.js\<close>, which is not under \<open>src/\<close>. The spec
  has the events bucketed by ability bucket key; the result object is an association
  list from each key to the events of that key in input order, the keys in the order
  in which they first occur.
\<close>

fun bucket_add :: "(string \<times> 'a list) list \<Rightarrow> string \<Rightarrow> 'a \<Rightarrow> (string \<times> 'a list) list" where
  "bucket_add [] k v = [(k, [v])]"
| "bucket_add ((k', vs) # bs) k v =
     (if k' = k then (k', vs @ [v]) # bs else (k', vs) # bucket_add bs k v)"

definition bucket :: "'a list \<Rightarrow> ('a \<Rightarrow> error + string) \<Rightarrow> error + (string \<times> 'a list) list" where
  "bucket arr toStr =
     foldE (\<lambda>buckets val.
              case toStr val of Inl e \<Rightarrow> Inl e | Inr k \<Rightarrow> Inr (bucket_add buckets k val))
       [] arr"

text \<open>
  \<open>Object.keys\<close> lists the keys that are array indices first, in ascending numeric
  order, then the other keys in the order of their creation. An array index is the
  decimal form, without leading zeros, of an integer from 0 to \<open>2^32 - 2\<close>.
\<close>

definition digitValue :: "char \<Rightarrow> nat" where
  "digitValue c = of_char c - 48"

definition isDigit :: "char \<Rightarrow> bool" where
  "isDigit c \<longleftrightarrow> 48 \<le> (of_char c :: nat) \<and> (of_char c :: nat) \<le> 57"

definition decimalValue :: "string \<Rightarrow> nat" where
  "decimalValue s = foldl (\<lambda>n c. 10 * n + digitValue c) 0 s"

definition isArrayIndex :: "string \<Rightarrow> bool" where
  "isArrayIndex s \<longleftrightarrow>
     s \<noteq> [] \<and> list_all isDigit s \<and> (s = ''0'' \<or> hd s \<noteq> CHR ''0'') \<and>
     decimalValue s < 2 ^ 32 - 1"

definition Object_keys :: "(string \<times> 'v) list \<Rightarrow> string list" where
  "Object_keys obj =
     sort_key decimalValue (filter isArrayIndex (map fst obj)) @
     filter (\<lambda>k. \<not> isArrayIndex k) (map fst obj)"

text \<open>The value of \<open>obj[key]\<close> where an absent key is handled as no logs.\<close>

definition logsOfKey :: "(string \<times> 'a list) list \<Rightarrow> string \<Rightarrow> 'a list" where
  "logsOfKey obj k = (case map_of obj k of None \<Rightarrow> [] | Some vs \<Rightarrow> vs)"

text \<open>
  The \<open>while\<close> loop over \<open>abilityDamageDealt\<close> from \<open>ddIdx\<close> on: the logs pushed to
  \<open>ddLogs\<close>, and the logs from the new \<open>ddIdx\<close> on.
\<close>

fun takeDamage ::
  "'aid CastCompletedLog option \<Rightarrow> 'aid DamageDealtLog list
     \<Rightarrow> 'aid DamageDealtLog list \<times> 'aid DamageDealtLog list" where
  "takeDamage nextCcLog [] = ([], [])"
| "takeDamage nextCcLog (d # ds) =
     (if (case nextCcLog of None \<Rightarrow> True | Some n \<Rightarrow> timestamp d < timestamp n)
      then (case takeDamage nextCcLog ds of (ddLogs, rest) \<Rightarrow> (d # ddLogs, rest))
      else ([], d # ds))"

text \<open>
  The \<open>for\<close> loop over \<open>abilityCastsBegan\<close>. The second argument is
  \<open>abilityCastsCompleted\<close> from \<open>cbIdx\<close> on, the third \<open>abilityDamageDealt\<close> from \<open>ddIdx\<close>
  on.
\<close>

fun castsOfBucket ::
  "'aid CastBeganLog list \<Rightarrow> 'aid CastCompletedLog list \<Rightarrow> 'aid DamageDealtLog list
     \<Rightarrow> 'aid CastLog list" where
  "castsOfBucket [] ccs dds = []"
| "castsOfBucket (cbLog # cbs) ccs dds =
     (let ccLog = (case ccs of [] \<Rightarrow> None | c # _ \<Rightarrow> Some c);
          nextCcLog = (case ccs of _ # n # _ \<Rightarrow> Some n | _ \<Rightarrow> None);
          taken = takeDamage nextCcLog dds
      in CastLog_new cbLog ccLog (fst taken) # castsOfBucket cbs (drop 1 ccs) (snd taken))"

definition CastLog_fromLogs :: "'aid ActionIdOps \<Rightarrow> 'aid SimLog list \<Rightarrow> error + 'aid CastLog list" where
  "CastLog_fromLogs ops ls =
     (case bucket (List.map_filter isCastBegan ls) (bucketKeyOf ops) of
        Inl e \<Rightarrow> Inl e
      | Inr castBeganLogsByAbility \<Rightarrow>
     (case bucket (List.map_filter isCastCompleted ls) (bucketKeyOf ops) of
        Inl e \<Rightarrow> Inl e
      | Inr castCompletedLogsByAbility \<Rightarrow>
     (case bucket (List.map_filter isDamageDealt ls) (bucketKeyOf ops) of
        Inl e \<Rightarrow> Inl e
      | Inr damageDealtLogsByAbility \<Rightarrow>
          Inr (sort_key timestamp
                 (concat
                    (map (\<lambda>bucketKey.
                            castsOfBucket (logsOfKey castBeganLogsByAbility bucketKey)
                              (logsOfKey castCompletedLogsByAbility bucketKey)
                              (logsOfKey damageDealtLogsByAbility bucketKey))
                       (Object_keys castBeganLogsByAbility)))))))"

section \<open>Regular expressions\<close>

text \<open>
  The patterns of the parser use literals, the dot, character classes, sequence,
  alternation, greedy and lazy repetition and capture groups; none has an anchor, a
  back reference or a look-around. The matcher below is the backtracking matcher of
  JavaScript for this fragment: alternatives are tried from left to right, a greedy
  repetition tries one more round before it tries to stop, a lazy one tries to stop
  first, and the first way to match the whole pattern is the result. Strings are lists
  of 8-bit characters.
\<close>

datatype re =
    Lit char
  | Dot
  | Set "(char \<times> char) list"
  | NSet "(char \<times> char) list"
  | Eps
  | Seq re re
  | Alt re re
  | Star re
  | Lazy re
  | Group nat re

definition inRanges :: "(char \<times> char) list \<Rightarrow> char \<Rightarrow> bool" where
  "inRanges rs c \<longleftrightarrow>
     list_ex (\<lambda>r. (of_char (fst r) :: nat) \<le> of_char c \<and> (of_char c :: nat) \<le> of_char (snd r)) rs"

text \<open>The dot matches every character but a line terminator.\<close>

definition lineTerminator :: "char \<Rightarrow> bool" where
  "lineTerminator c \<longleftrightarrow> (of_char c :: nat) = 10 \<or> (of_char c :: nat) = 13"

text \<open>The captures of a match: group numbers with the text they matched, the latest first.\<close>

type_synonym caps = "(nat \<times> string) list"

text \<open>
  \<open>rmatch r s cs k\<close> matches \<open>r\<close> at the start of \<open>s\<close> and hands what is left of \<open>s\<close>, with
  the captures, to the continuation \<open>k\<close>; when \<open>k\<close> fails, the matcher backtracks. A round
  of a repetition that matches the empty string is not taken.
\<close>

fun rmatch :: "re \<Rightarrow> string \<Rightarrow> caps \<Rightarrow> (string \<Rightarrow> caps \<Rightarrow> 'r option) \<Rightarrow> 'r option" where
  "rmatch (Lit c) s cs k =
     (case s of [] \<Rightarrow> None | x # xs \<Rightarrow> if x = c then k xs cs else None)"
| "rmatch Dot s cs k =
     (case s of [] \<Rightarrow> None | x # xs \<Rightarrow> if lineTerminator x then None else k xs cs)"
| "rmatch (Set rs) s cs k =
     (case s of [] \<Rightarrow> None | x # xs \<Rightarrow> if inRanges rs x then k xs cs else None)"
| "rmatch (NSet rs) s cs k =
     (case s of [] \<Rightarrow> None | x # xs \<Rightarrow> if inRanges rs x then None else k xs cs)"
| "rmatch Eps s cs k = k s cs"
| "rmatch (Seq a b) s cs k = rmatch a s cs (\<lambda>s' cs'. rmatch b s' cs' k)"
| "rmatch (Alt a b) s cs k =
     (case rmatch a s cs k of Some r \<Rightarrow> Some r | None \<Rightarrow> rmatch b s cs k)"
| "rmatch (Star a) s cs k =
     (case rmatch a s cs
             (\<lambda>s' cs'. if length s' < length s then rmatch (Star a) s' cs' k else None) of
        Some r \<Rightarrow> Some r
      | None \<Rightarrow> k s cs)"
| "rmatch (Lazy a) s cs k =
     (case k s cs of
        Some r \<Rightarrow> Some r
      | None \<Rightarrow>
          rmatch a s cs
            (\<lambda>s' cs'. if length s' < length s then rmatch (Lazy a) s' cs' k else None))"
| "rmatch (Group n a) s cs k =
     rmatch a s cs (\<lambda>s' cs'. k s' ((n, take (length s - length s') s) # cs'))"

declare rmatch.simps [simp del]

text \<open>
  \<open>String.match\<close> with a pattern that has no \<open>g\<close> flag: the match at the first position
  where the pattern matches. The result is the index of the match, its text and its
  captures.
\<close>

fun search :: "re \<Rightarrow> string \<Rightarrow> nat \<Rightarrow> (nat \<times> string \<times> caps) option" where
  "search r [] i =
     (case rmatch r [] [] (\<lambda>s' cs'. Some (s', cs')) of
        Some found \<Rightarrow> Some (i, [], snd found)
      | None \<Rightarrow> None)"
| "search r (c # s) i =
     (case rmatch r (c # s) [] (\<lambda>s' cs'. Some (s', cs')) of
        Some found \<Rightarrow> Some (i, take (length (c # s) - length (fst found)) (c # s), snd found)
      | None \<Rightarrow> search r s (Suc i))"

declare search.simps [simp del]

text \<open>
  The continuations that \<open>rmatch\<close> and \<open>search\<close> build, as named functions: a match is
  evaluated with them one step at a time, a continuation being unfolded when it is applied.
\<close>

definition kSeq :: "re \<Rightarrow> (string \<Rightarrow> caps \<Rightarrow> 'r option) \<Rightarrow> string \<Rightarrow> caps \<Rightarrow> 'r option" where
  "kSeq b k = (\<lambda>s' cs'. rmatch b s' cs' k)"

definition kStar :: "re \<Rightarrow> nat \<Rightarrow> (string \<Rightarrow> caps \<Rightarrow> 'r option) \<Rightarrow> string \<Rightarrow> caps \<Rightarrow> 'r option" where
  "kStar a n k = (\<lambda>s' cs'. if length s' < n then rmatch (Star a) s' cs' k else None)"

definition kLazy :: "re \<Rightarrow> nat \<Rightarrow> (string \<Rightarrow> caps \<Rightarrow> 'r option) \<Rightarrow> string \<Rightarrow> caps \<Rightarrow> 'r option" where
  "kLazy a n k = (\<lambda>s' cs'. if length s' < n then rmatch (Lazy a) s' cs' k else None)"

definition kGroup :: "nat \<Rightarrow> string \<Rightarrow> (string \<Rightarrow> caps \<Rightarrow> 'r option) \<Rightarrow> string \<Rightarrow> caps \<Rightarrow> 'r option" where
  "kGroup n s k = (\<lambda>s' cs'. k s' ((n, take (length s - length s') s) # cs'))"

definition kFound :: "string \<Rightarrow> caps \<Rightarrow> (string \<times> caps) option" where
  "kFound = (\<lambda>s' cs'. Some (s', cs'))"

definition String_match :: "string \<Rightarrow> re \<Rightarrow> (nat \<times> string \<times> caps) option" where
  "String_match str r = search r str 0"

text \<open>
  \<open>String.matchAll\<close> with a pattern that has the \<open>g\<close> flag: the captures of the successive
  matches, each search starting where the last match ended, one character further after
  an empty match.
\<close>

function matchAll :: "string \<Rightarrow> re \<Rightarrow> caps list" where
  "matchAll str r =
     (case search r str 0 of
        None \<Rightarrow> []
      | Some found \<Rightarrow>
          snd (snd found) #
          (let rest = drop (fst found + max 1 (length (fst (snd found)))) str
           in if length rest < length str then matchAll rest r else []))"
  by pat_completeness auto
termination
  by (relation "measure (\<lambda>p. length (fst p))") auto

declare matchAll.simps [simp del]

text \<open>\<open>match[n]\<close>: the text of group \<open>n\<close>, or \<open>None\<close> for \<open>undefined\<close>.\<close>

definition capture :: "caps \<Rightarrow> nat \<Rightarrow> string option" where
  "capture cs n = map_of cs n"

text \<open>A capture used as a condition: it is defined and not the empty string.\<close>

definition truthy :: "string option \<Rightarrow> bool" where
  "truthy g \<longleftrightarrow> (case g of None \<Rightarrow> False | Some t \<Rightarrow> t \<noteq> [])"

text \<open>The text of a group, empty for a group that did not take part in the match.\<close>

definition groupText :: "caps \<Rightarrow> nat \<Rightarrow> string" where
  "groupText cs n = (case map_of cs n of None \<Rightarrow> [] | Some t \<Rightarrow> t)"

subsection \<open>Building patterns\<close>

definition lits :: "string \<Rightarrow> re" where
  "lits s = foldr (\<lambda>c r. Seq (Lit c) r) s Eps"

definition seqs :: "re list \<Rightarrow> re" where
  "seqs rs = foldr Seq rs Eps"

definition alts :: "re \<Rightarrow> re list \<Rightarrow> re" where
  "alts r rs = foldr Alt (butlast (r # rs)) (last (r # rs))"

definition oneOrMore :: "re \<Rightarrow> re" where
  "oneOrMore a = Seq a (Star a)"

definition oneOrMoreLazy :: "re \<Rightarrow> re" where
  "oneOrMoreLazy a = Seq a (Lazy a)"

definition optional :: "re \<Rightarrow> re" where
  "optional a = Alt a Eps"

definition re_digit :: re where
  "re_digit = Set [(CHR ''0'', CHR ''9'')]"

definition re_word :: re where
  "re_word = Set [(CHR ''a'', CHR ''z''), (CHR ''A'', CHR ''Z''), (CHR ''0'', CHR ''9''),
                   (CHR ''_'', CHR ''_'')]"

text \<open>The white space of \<open>\s\<close> among the 8-bit characters.\<close>

definition whiteRanges :: "(char \<times> char) list" where
  "whiteRanges = [(CHR 0x09, CHR 0x0D), (CHR '' '', CHR '' ''), (CHR 0xA0, CHR 0xA0)]"

definition alnumRanges :: "(char \<times> char) list" where
  "alnumRanges = [(CHR ''a'', CHR ''z''), (CHR ''A'', CHR ''Z''), (CHR ''0'', CHR ''9'')]"

text \<open>\<open>(\d+\.?\d*)\<close> and \<open>(\d+\.\d+)\<close>, with and without the sign.\<close>

definition re_number :: re where
  "re_number = seqs [oneOrMore re_digit, optional (Lit CHR ''.''), Star re_digit]"

definition re_decimal :: re where
  "re_decimal = seqs [oneOrMore re_digit, Lit CHR ''.'', oneOrMore re_digit]"

subsection \<open>\<open>parseInt\<close> and \<open>parseFloat\<close>\<close>

text \<open>
  Both are applied to captures only: an optional sign and digits for \<open>parseInt\<close>, an
  optional sign, digits and an optional point with digits for \<open>parseFloat\<close>. On such
  texts the result here is the number the text denotes. The code rounds it to a double;
  for the amount of a damage event that rounding is \<open>toDouble\<close>, applied where the amount
  is read.
\<close>

definition parseInt :: "string \<Rightarrow> int" where
  "parseInt s =
     (case s of
        [] \<Rightarrow> 0
      | c # t \<Rightarrow>
          if c = CHR ''-'' then - int (decimalValue (takeWhile isDigit t))
          else int (decimalValue (takeWhile isDigit s)))"

definition parseUnsigned :: "string \<Rightarrow> rat" where
  "parseUnsigned s =
     (let whole = takeWhile isDigit s;
          rest = dropWhile isDigit s;
          frac = (case rest of [] \<Rightarrow> [] | c # t \<Rightarrow> if c = CHR ''.'' then takeWhile isDigit t else [])
      in of_nat (decimalValue whole) + of_nat (decimalValue frac) / 10 ^ length frac)"

definition parseFloat :: "string \<Rightarrow> rat" where
  "parseFloat s =
     (case s of
        [] \<Rightarrow> 0
      | c # t \<Rightarrow> if c = CHR ''-'' then - parseUnsigned t else parseUnsigned s)"

section \<open>\<open>Entity.parseAll\<close>\<close>

text \<open>
  \<open>parseRegex\<close>. The alternation is at the top of the pattern: the opening bracket
  belongs to the first alternative and the closing bracket to the third.
\<close>

definition Entity_parseRegex :: re where
  "Entity_parseRegex =
     alts (seqs [Lit CHR ''['', Group 1 (seqs [lits ''Target '', Group 2 (oneOrMore re_digit)])])
       [Group 3 (seqs [Group 4 (oneOrMore (Set alnumRanges)), lits '' (#'', Group 5 (oneOrMore re_digit),
                       lits '') - '',
                       Group 6 (oneOrMore (Set (alnumRanges @ whiteRanges @
                                  [(CHR '':'', CHR '':''), (CHR '','', CHR '','')])))]),
        seqs [Group 7 (seqs [Group 8 (oneOrMore (Set (alnumRanges @ whiteRanges))), lits '' (#'',
                             Group 9 (oneOrMore re_digit), Lit CHR '')'']),
              Lit CHR '']'']]"

definition Entity_ofMatch :: "caps \<Rightarrow> error + Entity" where
  "Entity_ofMatch m =
     (if truthy (capture m 1) then
        Inr \<lparr> name = groupText m 1, ownerName = [], index = parseInt (groupText m 2) - 1,
              isTarget = True, isPet = False \<rparr>
      else if truthy (capture m 3) then
        Inr \<lparr> name = groupText m 6, ownerName = groupText m 4, index = parseInt (groupText m 5) - 1,
              isTarget = False, isPet = True \<rparr>
      else if truthy (capture m 7) then
        Inr \<lparr> name = groupText m 8, ownerName = [], index = parseInt (groupText m 9) - 1,
              isTarget = False, isPet = False \<rparr>
      else Inl (Error ''Invalid Entity match''))"

definition Entity_parseAll :: "string \<Rightarrow> error + Entity list" where
  "Entity_parseAll str = mapE Entity_ofMatch (matchAll str Entity_parseRegex)"

section \<open>The parsers of the event classes\<close>

text \<open>
  \<open>ActionId.fromLogString(label).fill(index)\<close> and \<open>stringToResourceType\<close> are imported
  from \<open>action_id.js\<close> and \<open>names.js\<close>; the parser receives them in a record. The first
  is a promise of an action identifier; the value it resolves to is a function of the
  label and of the index of the source. A \<open>parse\<close> function returns \<open>null\<close> or a promise:
  here \<open>None\<close>, or the value the promise resolves to.
\<close>

record 'aid Imports =
  fromLogString_fill :: "string \<Rightarrow> int option \<Rightarrow> 'aid"
  stringToResourceType :: "string \<Rightarrow> int \<times> int option"

definition sourceIndex :: "'aid SimLogParams \<Rightarrow> int option" where
  "sourceIndex p = map_option index (source p)"

definition DamageDealtLog_regex :: re where
  "DamageDealtLog_regex =
     seqs [lits ''] '', Group 1 (Lazy Dot), Lit CHR '' '', optional (Group 2 (lits ''tick '')),
       Group 3 (alts (Group 4 (lits ''Miss''))
         [Group 5 (lits ''Hit''), Group 6 (lits ''CriticalBlock''), Group 7 (lits ''Crit''),
          Group 8 (lits ''Crush''), Group 9 (lits ''GlanceBlock''), Group 10 (lits ''Glance''),
          Group 11 (lits ''Dodge''), Group 12 (lits ''Parry''), Group 13 (lits ''Block'')]),
       optional (Group 14 (seqs [lits '' ('', Group 15 (oneOrMore re_digit), lits ''% Resist)''])),
       optional (Group 16 (seqs [lits '' for '', Group 17 re_decimal, Lit CHR '' '',
         Group 18 (alts (Group 19 (lits ''damage''))
           [Group 20 (lits ''healing''), Group 21 (lits ''shielding'')])]))]"

definition DamageDealtLog_new ::
  "'aid SimLogParams \<Rightarrow> double \<Rightarrow> string \<Rightarrow> bool \<Rightarrow> bool \<Rightarrow> bool \<Rightarrow> bool \<Rightarrow> bool \<Rightarrow> bool \<Rightarrow> bool
     \<Rightarrow> bool \<Rightarrow> bool \<Rightarrow> bool \<Rightarrow> bool \<Rightarrow> 'aid DamageDealtLog" where
  "DamageDealtLog_new p am ty ms cr cu gl dg pa bl tk r1 r2 r3 =
     SimLogParams.extend p
       (DamageDealtLog.fields am ty ms (\<not> ms \<and> \<not> cr) cr cu gl dg pa bl tk r1 r2 r3)"

definition DamageDealtLog_parse :: "'aid Imports \<Rightarrow> 'aid SimLogParams \<Rightarrow> 'aid SimLog option" where
  "DamageDealtLog_parse R p =
     (case String_match (raw p) DamageDealtLog_regex of
        None \<Rightarrow> None
      | Some (i, whole, m) \<Rightarrow>
          (let cause = fromLogString_fill R (groupText m 1) (sourceIndex p);
               p' = p\<lparr>actionId := Some cause\<rparr>;
               am = (if truthy (capture m 17) then toDouble (parseFloat (groupText m 17))
                     else Num 0);
               ty = (if truthy (capture m 18) then groupText m 18 else [])
           in Some (DamageDealt (DamageDealtLog_new p' am ty
                (capture m 3 = Some ''Miss'')
                (capture m 3 = Some ''Crit'' \<or> capture m 3 = Some ''CriticalBlock'')
                (capture m 3 = Some ''Crush'')
                (capture m 3 = Some ''Glance'' \<or> capture m 3 = Some ''GlanceBlock'')
                (capture m 3 = Some ''Dodge'')
                (capture m 3 = Some ''Parry'')
                (capture m 3 = Some ''Block'' \<or> capture m 3 = Some ''CriticalBlock''
                   \<or> capture m 3 = Some ''GlanceBlock'')
                (truthy (capture m 2))
                (capture m 15 = Some ''10'')
                (capture m 15 = Some ''20'')
                (capture m 15 = Some ''30'')))))"

definition ResourceChangedLog_regex :: re where
  "ResourceChangedLog_regex =
     seqs [Group 1 (Alt (lits ''Gained'') (lits ''Spent'')), Lit CHR '' '', Group 2 re_number,
       Lit CHR '' '',
       Group 3 (seqs [NSet whiteRanges, oneOrMoreLazy Dot, NSet whiteRanges]),
       lits '' from '', Group 4 (Lazy Dot), lits '' ('', Group 5 re_number, lits '' --> '',
       Group 6 re_number, Lit CHR '')'',
       optional (Group 7 (seqs [lits '' of '', Group 8 re_number, lits '' total'']))]"

definition ResourceChangedLog_parse :: "'aid Imports \<Rightarrow> 'aid SimLogParams \<Rightarrow> 'aid SimLog option" where
  "ResourceChangedLog_parse R p =
     (case String_match (raw p) ResourceChangedLog_regex of
        None \<Rightarrow> None
      | Some (i, whole, m) \<Rightarrow>
          (let types = stringToResourceType R (groupText m 3);
               tot = (if capture m 8 \<noteq> None then parseFloat (groupText m 8) else 0);
               cause = fromLogString_fill R (groupText m 4) (sourceIndex p);
               p' = p\<lparr>actionId := Some cause\<rparr>
           in Some (ResourceChanged (SimLogParams.extend p'
                (ResourceChangedLog.fields (fst types) (parseFloat (groupText m 5))
                   (parseFloat (groupText m 6)) (capture m 1 = Some ''Spent'') tot (snd types))))))"

definition AuraEventLog_regex :: re where
  "AuraEventLog_regex =
     seqs [lits ''Aura '',
       Group 1 (alts (Group 2 (lits ''gained''))
         [Group 3 (lits ''faded''), Group 4 (lits ''refreshed'')]),
       lits '': '', Group 5 (Star Dot)]"

definition AuraEventLog_parse :: "'aid Imports \<Rightarrow> 'aid SimLogParams \<Rightarrow> 'aid SimLog option" where
  "AuraEventLog_parse R p =
     (case String_match (raw p) AuraEventLog_regex of
        None \<Rightarrow> None
      | Some (i, whole, m) \<Rightarrow>
          if truthy (capture m 5) then
            (let aura = fromLogString_fill R (groupText m 5) (sourceIndex p);
                 p' = p\<lparr>actionId := Some aura\<rparr>
             in Some (AuraEvent (SimLogParams.extend p'
                  (AuraEventLog.fields (capture m 1 = Some ''gained'')
                     (capture m 1 = Some ''faded'') (capture m 1 = Some ''refreshed'')))))
          else None)"

definition AuraStacksChangeLog_regex :: re where
  "AuraStacksChangeLog_regex =
     seqs [Group 1 (Star Dot), lits '' stacks: '', Group 2 (oneOrMore re_digit), lits '' --> '',
       Group 3 (oneOrMore re_digit)]"

definition AuraStacksChangeLog_parse :: "'aid Imports \<Rightarrow> 'aid SimLogParams \<Rightarrow> 'aid SimLog option" where
  "AuraStacksChangeLog_parse R p =
     (case String_match (raw p) AuraStacksChangeLog_regex of
        None \<Rightarrow> None
      | Some (i, whole, m) \<Rightarrow>
          if truthy (capture m 1) then
            (let aura = fromLogString_fill R (groupText m 1) (sourceIndex p);
                 p' = p\<lparr>actionId := Some aura\<rparr>
             in Some (AuraStacksChange (SimLogParams.extend p'
                  (AuraStacksChangeLog.fields (parseInt (groupText m 2))
                     (parseInt (groupText m 3))))))
          else None)"

definition MajorCooldownUsedLog_regex :: re where
  "MajorCooldownUsedLog_regex = seqs [lits ''Major cooldown used: '', Group 1 (Star Dot)]"

definition MajorCooldownUsedLog_parse :: "'aid Imports \<Rightarrow> 'aid SimLogParams \<Rightarrow> 'aid SimLog option" where
  "MajorCooldownUsedLog_parse R p =
     (case String_match (raw p) MajorCooldownUsedLog_regex of
        None \<Rightarrow> None
      | Some (i, whole, m) \<Rightarrow>
          Some (MajorCooldownUsed
            (p\<lparr>actionId := Some (fromLogString_fill R (groupText m 1) (sourceIndex p))\<rparr>)))"

definition CastBeganLog_regex :: re where
  "CastBeganLog_regex =
     seqs [lits ''Casting '', Group 1 (Star Dot), lits '' (Cost = '', Group 2 re_number,
       lits '', Cast Time = '', Group 3 re_number,
       Group 4 (Seq (optional (Lit CHR ''m'')) (Lit CHR ''s'')),
       lits '', Effective Time = '', Group 5 re_number,
       Group 6 (Seq (optional (Lit CHR ''m'')) (Lit CHR ''s'')), Lit CHR '')'']"

definition CastBeganLog_parse :: "'aid Imports \<Rightarrow> 'aid SimLogParams \<Rightarrow> 'aid SimLog option" where
  "CastBeganLog_parse R p =
     (case String_match (raw p) CastBeganLog_regex of
        None \<Rightarrow> None
      | Some (i, whole, m) \<Rightarrow>
          (let ct = parseFloat (groupText m 3);
               ct' = (if capture m 4 = Some ''ms'' then ct / 1000 else ct);
               et = parseFloat (groupText m 5);
               et' = (if capture m 6 = Some ''ms'' then et / 1000 else et);
               castId = fromLogString_fill R (groupText m 1) (sourceIndex p);
               p' = p\<lparr>actionId := Some castId\<rparr>
           in Some (CastBegan (SimLogParams.extend p'
                (CastBeganLog.fields (parseFloat (groupText m 2)) ct' et')))))"

definition CastCompletedLog_regex :: re where
  "CastCompletedLog_regex = seqs [lits ''Completed cast '', Group 1 (Star Dot)]"

definition CastCompletedLog_parse :: "'aid Imports \<Rightarrow> 'aid SimLogParams \<Rightarrow> 'aid SimLog option" where
  "CastCompletedLog_parse R p =
     (case String_match (raw p) CastCompletedLog_regex of
        None \<Rightarrow> None
      | Some (i, whole, m) \<Rightarrow>
          Some (CastCompleted
            (p\<lparr>actionId := Some (fromLogString_fill R (groupText m 1) (sourceIndex p))\<rparr>)))"

definition StatChangeLog_regex :: re where
  "StatChangeLog_regex =
     seqs [Group 1 (Alt (Group 2 (lits ''Gained'')) (Group 3 (lits ''Lost''))), Lit CHR '' '',
       Group 4 (seqs [Lit CHR ''{'', Star Dot, Lit CHR ''}'']), lits '' from '',
       optional (Group 5 (lits ''fading '')), Group 6 (Star Dot)]"

definition StatChangeLog_parse :: "'aid Imports \<Rightarrow> 'aid SimLogParams \<Rightarrow> 'aid SimLog option" where
  "StatChangeLog_parse R p =
     (case String_match (raw p) StatChangeLog_regex of
        None \<Rightarrow> None
      | Some (i, whole, m) \<Rightarrow>
          (let effectId = fromLogString_fill R (groupText m 6) (sourceIndex p);
               p' = p\<lparr>actionId := Some effectId\<rparr>;
               sign = (if capture m 1 = Some ''Lost'' then - 1 else 1 :: int)
           in Some (StatChange (SimLogParams.extend p'
                (StatChangeLog.fields (sign = 1) (groupText m 4))))))"

section \<open>\<open>SimLog.parseAll\<close>\<close>

definition spellSchool_regex :: re where
  "spellSchool_regex =
     seqs [lits '' (SpellSchool: '', Group 1 (Seq (optional (Lit CHR ''-'')) (oneOrMore re_digit)),
       Lit CHR '')'']"

definition threat_regex :: re where
  "threat_regex =
     seqs [lits '' (Threat: '', Group 1 (Seq (optional (Lit CHR ''-'')) re_decimal), Lit CHR '')'']"

definition timestamp_regex :: re where
  "timestamp_regex =
     seqs [Lit CHR ''['', Group 1 (Seq (optional (Lit CHR ''-'')) re_decimal), Lit CHR '']'',
       Star re_word, Group 2 (Star Dot)]"

text \<open>The chain of \<open>||\<close>: the first parser that does not return \<open>null\<close>, or a plain log.\<close>

definition classify :: "'aid Imports \<Rightarrow> 'aid SimLogParams \<Rightarrow> 'aid SimLog" where
  "classify R p =
     (case DamageDealtLog_parse R p of Some l \<Rightarrow> l | None \<Rightarrow>
      case ResourceChangedLog_parse R p of Some l \<Rightarrow> l | None \<Rightarrow>
      case AuraEventLog_parse R p of Some l \<Rightarrow> l | None \<Rightarrow>
      case AuraStacksChangeLog_parse R p of Some l \<Rightarrow> l | None \<Rightarrow>
      case MajorCooldownUsedLog_parse R p of Some l \<Rightarrow> l | None \<Rightarrow>
      case CastBeganLog_parse R p of Some l \<Rightarrow> l | None \<Rightarrow>
      case CastCompletedLog_parse R p of Some l \<Rightarrow> l | None \<Rightarrow>
      case StatChangeLog_parse R p of Some l \<Rightarrow> l | None \<Rightarrow>
      Plain p)"

text \<open>
  The callback of \<open>lines.map\<close>. It returns a log or a promise of a log: here the log the
  promise resolves to. An exception inside the callback is the error on the left.
\<close>

definition parseLine :: "'aid Imports \<Rightarrow> string \<Rightarrow> nat \<Rightarrow> error + 'aid SimLog" where
  "parseLine R line0 lineIndex =
     (let p0 = \<lparr> raw = line0, logIndex = lineIndex, timestamp = 0, source = None, target = None,
                 actionId = None, spellSchool = None, threat = 0 \<rparr>;
          p1 = (case String_match line0 spellSchool_regex of
                  None \<Rightarrow> p0
                | Some (i, whole, m) \<Rightarrow> p0\<lparr>spellSchool := Some (parseInt (groupText m 1))\<rparr>);
          threatMatch = String_match line0 threat_regex;
          p2 = (case threatMatch of
                  None \<Rightarrow> p1
                | Some (i, whole, m) \<Rightarrow> p1\<lparr>threat := parseFloat (groupText m 1)\<rparr>);
          line = (case threatMatch of None \<Rightarrow> line0 | Some (i, whole, m) \<Rightarrow> take i line0)
      in case String_match line timestamp_regex of
           None \<Rightarrow> Inr (Plain p2)
         | Some (i, whole, m) \<Rightarrow>
             if \<not> truthy (capture m 1) then Inr (Plain p2)
             else
               (case Entity_parseAll (groupText m 2) of
                  Inl e \<Rightarrow> Inl e
                | Inr entities \<Rightarrow>
                    Inr (classify R
                      (p2\<lparr> timestamp := parseFloat (groupText m 1),
                           source := (case entities of [] \<Rightarrow> None | e # _ \<Rightarrow> Some e),
                           target := (case entities of _ # e # _ \<Rightarrow> Some e | _ \<Rightarrow> None) \<rparr>))))"

text \<open>\<open>logs.split('\n')\<close>: one more line than the blob has newline characters.\<close>

fun split_lines :: "string \<Rightarrow> string list" where
  "split_lines [] = [[]]"
| "split_lines (c # s) =
     (if c = CHR 0x0A then [] # split_lines s
      else (case split_lines s of [] \<Rightarrow> [[c]] | l # ls \<Rightarrow> (c # l) # ls))"

text \<open>
  \<open>Promise.all\<close> over promises that all fulfil. The promises settle in some order, the
  \<open>schedule\<close>: a list of positions, the earliest first. Each settlement stores the value
  at the position of its promise; the result is there once every position holds a value,
  and until then the joined promise is pending (\<open>None\<close>).
\<close>

definition Promise_all :: "nat list \<Rightarrow> 'a list \<Rightarrow> 'a list option" where
  "Promise_all schedule ps =
     (let settled = foldl (\<lambda>vs i. if i < length ps then vs[i := Some (ps ! i)] else vs)
                      (replicate (length ps) None) schedule
      in if list_all (\<lambda>v. v \<noteq> None) settled then Some (map the settled) else None)"

text \<open>
  \<open>parseAll\<close> is an \<open>async\<close> function: an exception in a callback of \<open>lines.map\<close> rejects
  the promise it returns (\<open>Some (Inl e)\<close>); otherwise its promise is the one of
  \<open>Promise.all\<close>.
\<close>

definition SimLog_parseAll ::
  "'aid Imports \<Rightarrow> nat list \<Rightarrow> string \<Rightarrow> (error + 'aid SimLog list) option" where
  "SimLog_parseAll R schedule blob =
     (let ls = split_lines blob in
      case mapE (\<lambda>(line, lineIndex). parseLine R line lineIndex) (zip ls [0..<length ls]) of
        Inl e \<Rightarrow> Some (Inl e)
      | Inr ps \<Rightarrow> map_option Inr (Promise_all schedule ps))"

section \<open>Notions used to state the properties\<close>

text \<open>A group of simultaneous events: not empty, and all of one timestamp.\<close>

definition simultaneous :: "('aid, 'z) SimLogParams_scheme list \<Rightarrow> bool" where
  "simultaneous g \<longleftrightarrow> g \<noteq> [] \<and> (\<forall>x \<in> set g. timestamp x = timestamp (hd g))"

text \<open>Two groups that follow each other start at different timestamps.\<close>

definition differ ::
  "('aid, 'z) SimLogParams_scheme list \<Rightarrow> ('aid, 'z) SimLogParams_scheme list \<Rightarrow> bool" where
  "differ g h \<longleftrightarrow> timestamp (hd g) \<noteq> timestamp (hd h)"

text \<open>The \<open>ResourceChanged\<close> events of one resource type, in input order.\<close>

definition resourceChangedLogsOf :: "int \<Rightarrow> 'aid SimLog list \<Rightarrow> 'aid ResourceChangedLog list" where
  "resourceChangedLogsOf rt ls =
     filter (\<lambda>l. ResourceChangedLog.resourceType l = rt) (List.map_filter isResourceChanged ls)"

text \<open>The test of the window as the code computes it, for a group at \<open>t0\<close>.\<close>

definition inWindow :: "rat \<Rightarrow> ('aid, 'z) SimLogParams_scheme \<Rightarrow> bool" where
  "inWindow t0 d \<longleftrightarrow> dgt (toDouble (timestamp d)) (dsub (toDouble t0) DPS_WINDOW)"

text \<open>
  The damage events of a list in the trailing window of \<open>t0\<close>: not later than \<open>t0\<close> and
  inside the window as the code tests it.
\<close>

definition windowOf :: "'aid DamageDealtLog list \<Rightarrow> rat \<Rightarrow> 'aid DamageDealtLog list" where
  "windowOf ls t0 = filter (\<lambda>d. inWindow t0 d \<and> timestamp d \<le> t0) ls"

text \<open>The value of a finite amount.\<close>

definition amountValue :: "'aid DamageDealtLog \<Rightarrow> rat" where
  "amountValue d = (case amount d of Num a \<Rightarrow> a | _ \<Rightarrow> 0)"

text \<open>
  Amounts that are integers, with absolute values that sum to at most \<open>2 ^ 53\<close>: every
  sum of some of them is a double, so that adding and subtracting them is exact.
\<close>

definition integerAmount :: "'aid DamageDealtLog \<Rightarrow> bool" where
  "integerAmount d \<longleftrightarrow> (case amount d of Num a \<Rightarrow> of_int \<lfloor>a\<rfloor> = a | _ \<Rightarrow> False)"

definition integerAmounts :: "'aid DamageDealtLog list \<Rightarrow> bool" where
  "integerAmounts ls \<longleftrightarrow>
     list_all integerAmount ls \<and> sum_list (map (\<lambda>d. \<bar>amountValue d\<bar>) ls) \<le> 2 ^ 53"

text \<open>The event that opened an entry of \<open>unmatchedGainedLogs\<close>, as an element of the input.\<close>

definition openedBy :: "'aid UnmatchedGained \<Rightarrow> 'aid SimLog" where
  "openedBy m = AuraEvent (gained m)"

text \<open>An entry is opened by a gained event or by a refresh.\<close>

definition opens :: "'aid AuraEventLog \<Rightarrow> bool" where
  "opens l \<longleftrightarrow> isGained l \<or> isRefreshed l"

text \<open>
  What holds of the two lists after the loop has run over the events \<open>ls\<close>: the open
  entries were opened by events of \<open>ls\<close> and stand in the order of these events; the
  uptime logs were pushed by closing events \<open>cs\<close> of \<open>ls\<close>, in the order of these events,
  each for an entry \<open>ms\<close> that an event of \<open>ls\<close> had opened.
\<close>

definition auraInv ::
  "'aid SimLog list \<Rightarrow> 'aid UnmatchedGained list \<times> 'aid AuraUptimeLog list \<Rightarrow> bool" where
  "auraInv ls st \<longleftrightarrow>
     subseq (map openedBy (fst st)) ls \<and>
     (\<forall>m \<in> set (fst st). opens (gained m)) \<and>
     (\<exists>cs ms. length cs = length ms \<and> snd st = map2 closedBy cs ms \<and>
        subseq (map AuraEvent cs) ls \<and>
        (\<forall>c \<in> set cs. \<not> isGained c) \<and>
        (\<forall>m \<in> set ms. openedBy m \<in> set ls \<and> opens (gained m)))"

text \<open>The test of the \<open>while\<close> loop on a damage log: there is no next completion, or the log is earlier than it.\<close>

definition beforeNext :: "'aid CastCompletedLog option \<Rightarrow> 'aid DamageDealtLog \<Rightarrow> bool" where
  "beforeNext nextCcLog d \<longleftrightarrow> (case nextCcLog of None \<Rightarrow> True | Some n \<Rightarrow> timestamp d < timestamp n)"

text \<open>The logs of a list whose bucket key is \<open>k\<close>, in input order.\<close>

definition bucketOf ::
  "'aid ActionIdOps \<Rightarrow> string \<Rightarrow> ('aid, 'z) SimLogParams_scheme list \<Rightarrow> ('aid, 'z) SimLogParams_scheme list" where
  "bucketOf ops k ls = filter (\<lambda>l. bucketKeyOf ops l = Inr k) ls"

text \<open>\<open>xs[i]\<close> when \<open>i\<close> is in range.\<close>

definition nth_option :: "'a list \<Rightarrow> nat \<Rightarrow> 'a option" where
  "nth_option xs i = (if i < length xs then Some (xs ! i) else None)"

text \<open>What holds of the buckets after \<open>bucket\<close> has run over \<open>pre\<close>.\<close>

definition bucketInv :: "('a \<Rightarrow> error + string) \<Rightarrow> 'a list \<Rightarrow> (string \<times> 'a list) list \<Rightarrow> bool" where
  "bucketInv toStr pre b \<longleftrightarrow>
     distinct (map fst b) \<and>
     set (map fst b) = {k. \<exists>v \<in> set pre. toStr v = Inr k} \<and>
     (\<forall>k. logsOfKey b k = filter (\<lambda>v. toStr v = Inr k) pre)"

text \<open>The logs whose action identifier \<open>CastLog.fromLogs\<close> reads.\<close>

definition needsActionId :: "'aid SimLog \<Rightarrow> bool" where
  "needsActionId l \<longleftrightarrow> isCastBegan l \<noteq> None \<or> isCastCompleted l \<noteq> None \<or> isDamageDealt l \<noteq> None"

subsection \<open>Notions for the parser\<close>

text \<open>A pattern is consuming when each of its matches takes at least one character.\<close>

fun consuming :: "re \<Rightarrow> bool" where
  "consuming (Lit c) = True"
| "consuming Dot = True"
| "consuming (Set rs) = True"
| "consuming (NSet rs) = True"
| "consuming Eps = False"
| "consuming (Seq a b) = (consuming a \<or> consuming b)"
| "consuming (Alt a b) = (consuming a \<and> consuming b)"
| "consuming (Star a) = False"
| "consuming (Lazy a) = False"
| "consuming (Group n a) = consuming a"

text \<open>The line up to its threat annotation: the text in which the timestamp is looked for.\<close>

definition beforeThreat :: "string \<Rightarrow> string" where
  "beforeThreat line =
     (case String_match line threat_regex of None \<Rightarrow> line | Some (j, whole, m) \<Rightarrow> take j line)"

text \<open>
  The captures of the bracketed timestamp of a line, wherever in the line it stands;
  \<open>None\<close> when the line has none.
\<close>

definition timestampMatch :: "string \<Rightarrow> caps option" where
  "timestampMatch line =
     (case String_match (beforeThreat line) timestamp_regex of
        None \<Rightarrow> None
      | Some (j, whole, m) \<Rightarrow> if truthy (capture m 1) then Some m else None)"

text \<open>The line starts with a bracketed timestamp.\<close>

definition leadingTimestamp :: "string \<Rightarrow> bool" where
  "leadingTimestamp line \<longleftrightarrow>
     rmatch timestamp_regex line [] (\<lambda>s' cs'. Some (s', cs')) \<noteq> None"

definition entitiesOf :: "string \<Rightarrow> Entity list" where
  "entitiesOf line =
     (case timestampMatch line of
        None \<Rightarrow> []
      | Some m \<Rightarrow> (case Entity_parseAll (groupText m 2) of Inl e \<Rightarrow> [] | Inr es \<Rightarrow> es))"

text \<open>
  The header fields of a line: what the line says of the time, the entities, the spell
  school and the threat, with the text of the line and its position.
\<close>

definition header :: "string \<Rightarrow> nat \<Rightarrow> 'aid SimLogParams" where
  "header line i =
     \<lparr> raw = line, logIndex = i,
       timestamp = (case timestampMatch line of None \<Rightarrow> 0 | Some m \<Rightarrow> parseFloat (groupText m 1)),
       source = nth_option (entitiesOf line) 0,
       target = nth_option (entitiesOf line) 1,
       actionId = None,
       spellSchool = (case String_match line spellSchool_regex of
                        None \<Rightarrow> None
                      | Some (j, whole, m) \<Rightarrow> Some (parseInt (groupText m 1))),
       threat = (case String_match line threat_regex of
                   None \<Rightarrow> 0
                 | Some (j, whole, m) \<Rightarrow> parseFloat (groupText m 1)) \<rparr>"

definition kindRegexes :: "re list" where
  "kindRegexes =
     [DamageDealtLog_regex, ResourceChangedLog_regex, AuraEventLog_regex,
      AuraStacksChangeLog_regex, MajorCooldownUsedLog_regex, CastBeganLog_regex,
      CastCompletedLog_regex, StatChangeLog_regex]"

definition matchedByNoKind :: "string \<Rightarrow> bool" where
  "matchedByNoKind line \<longleftrightarrow> list_all (\<lambda>r. String_match line r = None) kindRegexes"

definition newline :: char where
  "newline = CHR 0x0A"

section \<open>Example logs\<close>

text \<open>
  Small concrete logs. An example action identifier is a pair of a spell id and a tag;
  its string form is the two numbers in decimal.
\<close>

fun showNat :: "nat \<Rightarrow> string" where
  "showNat n =
     (if n < 10 then [''0123456789'' ! n]
      else showNat (n div 10) @ [''0123456789'' ! (n mod 10)])"

declare showNat.simps [simp del]

definition ex_ops :: "(nat \<times> nat) ActionIdOps" where
  "ex_ops =
     \<lparr> equals = (\<lambda>a b. a = b),
       equalsIgnoringTag = (\<lambda>a b. fst a = fst b),
       toString = (\<lambda>a. showNat (fst a) @ ''-'' @ showNat (snd a)),
       toStringIgnoringTag = (\<lambda>a. showNat (fst a)),
       spellId = (\<lambda>a. int (fst a)) \<rparr>"

definition ex_player :: Entity where
  "ex_player = \<lparr> name = ''Bob'', ownerName = [], index = 0, isTarget = False, isPet = False \<rparr>"

definition ex_params :: "nat \<Rightarrow> rat \<Rightarrow> 'aid option \<Rightarrow> 'aid SimLogParams" where
  "ex_params i t a =
     \<lparr> raw = [], logIndex = i, timestamp = t, source = Some ex_player, target = None,
       actionId = a, spellSchool = None, threat = 0 \<rparr>"

definition ex_castBegan :: "nat \<Rightarrow> rat \<Rightarrow> 'aid option \<Rightarrow> 'aid CastBeganLog" where
  "ex_castBegan i t a =
     SimLogParams.extend (ex_params i t a)
       (CastBeganLog.fields 0 (3 / 2) (3 / 2))"

definition ex_resource :: "nat \<Rightarrow> rat \<Rightarrow> int \<Rightarrow> rat \<Rightarrow> rat \<Rightarrow> rat \<Rightarrow> nat ResourceChangedLog" where
  "ex_resource i t rt before after tot =
     SimLogParams.extend (ex_params i t (Some 7))
       (ResourceChangedLog.fields rt before after False tot None)"

definition ex_enum :: "int list" where
  "ex_enum = [0, 1, 2, 3]"

definition ex_damage :: "nat \<Rightarrow> rat \<Rightarrow> 'aid option \<Rightarrow> rat \<Rightarrow> bool \<Rightarrow> 'aid DamageDealtLog" where
  "ex_damage i t a amt tk =
     SimLogParams.extend (ex_params i t a)
       (DamageDealtLog.fields (Num amt) ''damage'' False True False False False False False False
          tk False False False)"

definition ex_dps :: "nat DamageDealtLog list" where
  "ex_dps = [ex_damage 0 0 (Some 7) 150 False, ex_damage 1 10 (Some 7) 30 False,
             ex_damage 2 10 (Some 8) 60 False, ex_damage 3 16 (Some 7) 15 False]"

text \<open>
  Damage events out of time order; a damage event with an infinite amount; and an amount
  so large that adding 1 to it is lost in the rounding.
\<close>

definition ex_dps_unsorted :: "nat DamageDealtLog list" where
  "ex_dps_unsorted = [ex_damage 0 0 (Some 7) 15 False, ex_damage 1 30 (Some 7) 30 False,
                      ex_damage 2 1 (Some 7) 45 False, ex_damage 3 31 (Some 7) 60 False]"

definition ex_dps_infinite :: "nat DamageDealtLog list" where
  "ex_dps_infinite = [(ex_damage 0 0 (Some 7) 0 False)\<lparr>amount := Infinity\<rparr>,
                      ex_damage 1 20 (Some 7) 1 False]"

definition ex_dps_rounding :: "nat DamageDealtLog list" where
  "ex_dps_rounding = [ex_damage 0 0 (Some 7) 9007199254740992 False,
                      ex_damage 1 20 (Some 7) 1 False]"

definition ex_aura ::
  "nat \<Rightarrow> rat \<Rightarrow> string \<Rightarrow> 'aid \<Rightarrow> bool \<Rightarrow> bool \<Rightarrow> bool \<Rightarrow> 'aid AuraEventLog" where
  "ex_aura i t r a g f rf =
     SimLogParams.extend ((ex_params i t (Some a))\<lparr>raw := r\<rparr>) (AuraEventLog.fields g f rf)"

definition ex_stacks :: "nat \<Rightarrow> rat \<Rightarrow> 'aid \<Rightarrow> int \<Rightarrow> int \<Rightarrow> 'aid AuraStacksChangeLog" where
  "ex_stacks i t a old new =
     SimLogParams.extend (ex_params i t (Some a)) (AuraStacksChangeLog.fields old new)"

definition ex_gainA :: "(nat \<times> nat) AuraEventLog" where
  "ex_gainA = ex_aura 0 1 ''[1.00] [Bob (#1)] Aura gained: A'' (5, 0) True False False"

definition ex_gainB :: "(nat \<times> nat) AuraEventLog" where
  "ex_gainB = ex_aura 1 1 ''[1.00] [Bob (#1)] Aura gained: B'' (6, 0) True False False"

definition ex_fadeB :: "(nat \<times> nat) AuraEventLog" where
  "ex_fadeB = ex_aura 2 2 ''[2.00] [Bob (#1)] Aura faded: B'' (6, 0) False True False"

definition ex_stacksA :: "(nat \<times> nat) AuraStacksChangeLog" where
  "ex_stacksA = ex_stacks 3 3 (5, 0) 0 2"

definition ex_fadeA :: "(nat \<times> nat) AuraEventLog" where
  "ex_fadeA = ex_aura 4 5 ''[5.00] [Bob (#1)] Aura faded: A'' (5, 0) False True False"

definition ex_gainA2 :: "(nat \<times> nat) AuraEventLog" where
  "ex_gainA2 = ex_aura 1 2 ''[2.00] [Bob (#1)] Aura gained: A'' (5, 1) True False False"


definition ex_fadeA3 :: "(nat \<times> nat) AuraEventLog" where
  "ex_fadeA3 = ex_aura 3 3 ''[3.00] [Bob (#1)] Aura faded: A'' (5, 0) False True False"

definition ex_completed :: "nat \<Rightarrow> rat \<Rightarrow> 'aid option \<Rightarrow> 'aid CastCompletedLog" where
  "ex_completed i t a = ex_params i t a"

definition ex_castLogs :: "(nat \<times> nat) SimLog list" where
  "ex_castLogs =
     [CastBegan (ex_castBegan 0 0 (Some (7, 1))),
      CastCompleted (ex_completed 1 2 (Some (7, 1))),
      DamageDealt (ex_damage 2 2 (Some (7, 1)) 100 False),
      CastBegan (ex_castBegan 3 3 (Some (7, 1))),
      DamageDealt (ex_damage 4 4 (Some (7, 1)) 40 True),
      CastCompleted (ex_completed 5 5 (Some (7, 1))),
      DamageDealt (ex_damage 6 5 (Some (7, 1)) 100 False),
      CastBegan (ex_castBegan 7 6 (Some (7, 1))),
      CastBegan (ex_castBegan 8 6 (Some (12, 0)))]"

text \<open>Two casts of one ability, with a damage event before the first completion.\<close>

definition ex_earlyDamage :: "(nat \<times> nat) SimLog list" where
  "ex_earlyDamage =
     [CastBegan (ex_castBegan 0 0 (Some (7, 1))),
      DamageDealt (ex_damage 1 1 (Some (7, 1)) 100 False),
      CastCompleted (ex_completed 2 2 (Some (7, 1))),
      CastBegan (ex_castBegan 3 3 (Some (7, 1))),
      CastCompleted (ex_completed 4 5 (Some (7, 1)))]"

subsection \<open>A log of three lines\<close>

text \<open>
  A resolver that keeps the label and the index it was given, and a table of resource
  names with one entry.
\<close>

definition ex_imports :: "(string \<times> int option) Imports" where
  "ex_imports =
     \<lparr> fromLogString_fill = (\<lambda>label i. (label, i)),
       stringToResourceType = (\<lambda>s. (if s = ''mana'' then 1 else 0, None)) \<rparr>"

definition ex_blob :: string where
  "ex_blob = ''Start'' @ [newline] @
             ''[2.0] [Bob (#1)] hello'' @ [newline] @
             ''[2.5] [Bob (#1)] Completed cast F''"

section \<open>Properties of the constructor of \<open>CastLog\<close>\<close>

lemma CastLog_new_fields:
  "castBeganLog (CastLog_new cb cc dds) = cb"
  "castCompletedLog (CastLog_new cb cc dds) = cc"
  "damageDealtLogs (CastLog_new cb cc dds) = dds"
  "timestamp (CastLog_new cb cc dds) = timestamp cb"
  "logIndex (CastLog_new cb cc dds) = logIndex cb"
  by (simp_all add: CastLog_new_def)

lemmas ex_defs = ex_params_def ex_castBegan_def ex_damage_def ex_resource_def
  ex_aura_def ex_stacks_def ex_player_def
  SimLogParams.extend_def CastBeganLog.fields_def DamageDealtLog.fields_def
  ResourceChangedLog.fields_def AuraEventLog.fields_def AuraStacksChangeLog.fields_def

text \<open>
  Claim C6. The travel time of a cast log is nonzero only when a completion log exists,
  exactly one damage event is attributed, that event is not a tick and its timestamp is
  strictly after the completion's; then it is the damage timestamp minus the completion
  timestamp. In every other case it is 0; in particular a cast without a completion has
  \<open>castCompletedLog = None\<close> and travel time 0.
\<close>

theorem CastLog_travelTime:
  "(travelTime (CastLog_new cb cc dds) \<noteq> 0 \<longrightarrow>
      (\<exists>c d. cc = Some c \<and> dds = [d] \<and> length dds = 1 \<and> \<not> tick d \<and>
             timestamp c < timestamp d)) \<and>
   (\<forall>c d. cc = Some c \<and> dds = [d] \<and> \<not> tick d \<and> timestamp c < timestamp d \<longrightarrow>
      travelTime (CastLog_new cb cc dds) = timestamp d - timestamp c \<and>
      travelTime (CastLog_new cb cc dds) \<noteq> 0) \<and>
   (cc = None \<or> length dds \<noteq> 1 \<or>
    (\<exists>c d. cc = Some c \<and> dds = [d] \<and> (tick d \<or> timestamp d \<le> timestamp c)) \<longrightarrow>
      travelTime (CastLog_new cb cc dds) = 0) \<and>
   (cc = None \<longrightarrow> castCompletedLog (CastLog_new cb cc dds) = None)"
  by (auto simp: CastLog_new_def split: option.splits list.splits)

theorem CastLog_travelTime_witness:
  "travelTime (CastLog_new (ex_castBegan 0 0 (Some (7::nat))) (Some (ex_params 1 (3 / 2) (Some 7)))
      [ex_damage 2 (5 / 2) (Some 7) 100 False]) = 1 \<and>
   travelTime (CastLog_new (ex_castBegan 0 0 (Some (7::nat))) (Some (ex_params 1 (3 / 2) (Some 7)))
      [ex_damage 2 (5 / 2) (Some 7) 100 True]) = 0 \<and>
   travelTime (CastLog_new (ex_castBegan 0 0 (Some (7::nat))) None
      [ex_damage 2 (5 / 2) (Some 7) 100 False]) = 0 \<and>
   castCompletedLog (CastLog_new (ex_castBegan 0 0 (Some (7::nat))) None
      [ex_damage 2 (5 / 2) (Some 7) 100 False]) = None"
  using CastLog_travelTime [of "ex_castBegan 0 0 (Some (7::nat))" "Some (ex_params 1 (3 / 2) (Some 7))"
      "[ex_damage 2 (5 / 2) (Some 7) 100 False]"]
    CastLog_travelTime [of "ex_castBegan 0 0 (Some (7::nat))" "Some (ex_params 1 (3 / 2) (Some 7))"
      "[ex_damage 2 (5 / 2) (Some 7) 100 True]"]
    CastLog_travelTime [of "ex_castBegan 0 0 (Some (7::nat))" None
      "[ex_damage 2 (5 / 2) (Some 7) 100 False]"]
  by (simp add: ex_defs)

text \<open>
  Claim C10. The header of a cast log takes its action identifier from the completion
  log when that log exists and carries one, and from the begin log otherwise; the spell
  school and the threat fall back to the begin log in the same way, and also when the
  completion's value is 0.
\<close>

theorem CastLog_header_fallback:
  "(\<forall>c a. cc = Some c \<and> actionId c = Some a \<longrightarrow>
      actionId (CastLog_new cb cc dds) = Some a) \<and>
   (cc = None \<or> (\<exists>c. cc = Some c \<and> actionId c = None) \<longrightarrow>
      actionId (CastLog_new cb cc dds) = actionId cb) \<and>
   (\<forall>c s. cc = Some c \<and> spellSchool c = Some s \<and> s \<noteq> 0 \<longrightarrow>
      spellSchool (CastLog_new cb cc dds) = Some s) \<and>
   (cc = None \<or> (\<exists>c. cc = Some c \<and> (spellSchool c = None \<or> spellSchool c = Some 0)) \<longrightarrow>
      spellSchool (CastLog_new cb cc dds) = spellSchool cb) \<and>
   (\<forall>c. cc = Some c \<and> threat c \<noteq> 0 \<longrightarrow>
      threat (CastLog_new cb cc dds) = threat c) \<and>
   (cc = None \<or> (\<exists>c. cc = Some c \<and> threat c = 0) \<longrightarrow>
      threat (CastLog_new cb cc dds) = threat cb)"
  by (auto simp: CastLog_new_def or_object_def or_nullable_number_def or_number_def
      split: option.splits)

theorem CastLog_header_fallback_witness:
  "actionId (CastLog_new (ex_castBegan 0 0 (Some (7::nat))) (Some (ex_params 1 (3 / 2) (Some 8))) [])
     = Some 8 \<and>
   actionId (CastLog_new (ex_castBegan 0 0 (Some (7::nat))) (Some (ex_params 1 (3 / 2) None)) [])
     = Some 7 \<and>
   actionId (CastLog_new (ex_castBegan 0 0 (Some (7::nat))) None []) = Some 7 \<and>
   spellSchool (CastLog_new ((ex_castBegan 0 0 (Some (7::nat)))\<lparr>spellSchool := Some 4\<rparr>)
      (Some ((ex_params 1 (3 / 2) (Some 8))\<lparr>spellSchool := Some 0\<rparr>)) []) = Some 4 \<and>
   spellSchool (CastLog_new ((ex_castBegan 0 0 (Some (7::nat)))\<lparr>spellSchool := Some 4\<rparr>)
      (Some ((ex_params 1 (3 / 2) (Some 8))\<lparr>spellSchool := Some 2\<rparr>)) []) = Some 2 \<and>
   threat (CastLog_new ((ex_castBegan 0 0 (Some (7::nat)))\<lparr>threat := 5\<rparr>)
      (Some (ex_params 1 (3 / 2) (Some 8))) []) = 5 \<and>
   threat (CastLog_new ((ex_castBegan 0 0 (Some (7::nat)))\<lparr>threat := 5\<rparr>)
      (Some ((ex_params 1 (3 / 2) (Some 8))\<lparr>threat := 9\<rparr>)) []) = 9"
  using CastLog_header_fallback [of "Some (ex_params 1 (3 / 2) (Some 8))"
      "ex_castBegan 0 0 (Some (7::nat))" "[]"]
    CastLog_header_fallback [of "Some (ex_params 1 (3 / 2) None)" "ex_castBegan 0 0 (Some (7::nat))" "[]"]
    CastLog_header_fallback [of None "ex_castBegan 0 0 (Some (7::nat))" "[]"]
    CastLog_header_fallback [of "Some ((ex_params 1 (3 / 2) (Some 8))\<lparr>spellSchool := Some 0\<rparr>)"
      "(ex_castBegan 0 0 (Some (7::nat)))\<lparr>spellSchool := Some 4\<rparr>" "[]"]
    CastLog_header_fallback [of "Some ((ex_params 1 (3 / 2) (Some 8))\<lparr>spellSchool := Some 2\<rparr>)"
      "(ex_castBegan 0 0 (Some (7::nat)))\<lparr>spellSchool := Some 4\<rparr>" "[]"]
    CastLog_header_fallback [of "Some (ex_params 1 (3 / 2) (Some 8))"
      "(ex_castBegan 0 0 (Some (7::nat)))\<lparr>threat := 5\<rparr>" "[]"]
    CastLog_header_fallback [of "Some ((ex_params 1 (3 / 2) (Some 8))\<lparr>threat := 9\<rparr>)"
      "(ex_castBegan 0 0 (Some (7::nat)))\<lparr>threat := 5\<rparr>" "[]"]
  by (simp add: ex_defs)

section \<open>Properties of \<open>groupDuplicateTimestamps\<close>\<close>

lemma groupLoop_concat:
  "concat (groupLoop grouped cur ls) = concat grouped @ cur @ ls"
  by (induction ls arbitrary: grouped cur) (auto split: list.splits)

lemma simultaneous_single: "simultaneous [l]"
  by (simp add: simultaneous_def)

lemma simultaneous_snoc:
  "simultaneous (c0 # cs) \<Longrightarrow> timestamp l = timestamp c0 \<Longrightarrow> simultaneous ((c0 # cs) @ [l])"
  by (simp add: simultaneous_def)

lemma groupLoop_simultaneous:
  "\<forall>g \<in> set grouped. simultaneous g \<Longrightarrow> cur = [] \<or> simultaneous cur \<Longrightarrow>
   \<forall>g \<in> set (groupLoop grouped cur ls). simultaneous g"
proof (induction ls arbitrary: grouped cur)
  case Nil
  then show ?case by (cases cur) simp_all
next
  case (Cons l ls)
  show ?case
  proof (cases cur)
    case Nil
    have "\<forall>g\<in>set (groupLoop grouped [l] ls). simultaneous g"
      using Cons.prems(1) simultaneous_single by (intro Cons.IH) simp_all
    then show ?thesis using Nil by simp
  next
    case c: (Cons c0 cs)
    show ?thesis
    proof (cases "timestamp l = timestamp c0")
      case True
      have "simultaneous (cur @ [l])" using Cons.prems(2) c True simultaneous_snoc by blast
      then have "\<forall>g\<in>set (groupLoop grouped (cur @ [l]) ls). simultaneous g"
        using Cons.prems(1) by (intro Cons.IH) simp_all
      then show ?thesis using c True by simp
    next
      case False
      have "simultaneous cur" using Cons.prems(2) c by simp
      then have "\<forall>g\<in>set (groupLoop (grouped @ [cur]) [l] ls). simultaneous g"
        using Cons.prems(1) simultaneous_single by (intro Cons.IH) simp_all
      then show ?thesis using c False by simp
    qed
  qed
qed


lemma successively_snoc:
  "successively P (xs @ [y]) \<longleftrightarrow> successively P xs \<and> (xs = [] \<or> P (last xs) y)"
  by (induction xs rule: induct_list012) auto

lemma groupLoop_differ:
  "successively differ (grouped @ [cur]) \<Longrightarrow> cur \<noteq> [] \<Longrightarrow>
   successively differ (groupLoop grouped cur ls)"
proof (induction ls arbitrary: grouped cur)
  case Nil
  then show ?case by simp
next
  case (Cons l ls)
  obtain c0 cs where c: "cur = c0 # cs" using Cons.prems(2) by (cases cur) auto
  show ?case
  proof (cases "timestamp l = timestamp c0")
    case True
    have "successively differ (grouped @ [cur @ [l]])"
      using Cons.prems(1) c by (simp add: successively_snoc differ_def)
    then have "successively differ (groupLoop grouped (cur @ [l]) ls)"
      by (intro Cons.IH) simp_all
    then show ?thesis using c True by simp
  next
    case False
    have "successively differ ((grouped @ [cur]) @ [[l]])"
      using Cons.prems(1) c False by (simp add: successively_snoc differ_def del: append_assoc)
    then have "successively differ (groupLoop (grouped @ [cur]) [l] ls)"
      by (intro Cons.IH) simp_all
    then show ?thesis using c False by simp
  qed
qed

lemma groupDuplicateTimestamps_concat: "concat (groupDuplicateTimestamps ls) = ls"
  by (simp add: groupDuplicateTimestamps_def groupLoop_concat)

lemma groupDuplicateTimestamps_simultaneous:
  "g \<in> set (groupDuplicateTimestamps ls) \<Longrightarrow> simultaneous g"
  using groupLoop_simultaneous [of "[]" "[]" ls] by (simp add: groupDuplicateTimestamps_def)

lemma groupDuplicateTimestamps_differ:
  "successively differ (groupDuplicateTimestamps ls)"
proof (cases ls)
  case Nil
  then show ?thesis by (simp add: groupDuplicateTimestamps_def)
next
  case (Cons l ls')
  have "successively differ (groupLoop [] [l] ls')"
    by (rule groupLoop_differ [of "[]", simplified]) simp_all
  then show ?thesis using Cons by (simp add: groupDuplicateTimestamps_def)
qed

section \<open>Properties of the error-passing maps\<close>

lemma mapE_Cons_Inr:
  "mapE f (x # xs) = Inr zs \<longleftrightarrow> (\<exists>y ys. zs = y # ys \<and> f x = Inr y \<and> mapE f xs = Inr ys)"
  by (auto split: sum.splits)

lemma mapE_Inr_iff: "mapE f xs = Inr ys \<longleftrightarrow> list_all2 (\<lambda>x y. f x = Inr y) xs ys"
proof (induction xs arbitrary: ys)
  case Nil
  then show ?case by auto
next
  case (Cons x xs)
  show ?case unfolding mapE_Cons_Inr by (cases ys) (simp_all add: Cons.IH)
qed

lemma mapE_total:
  "(\<And>x. x \<in> set xs \<Longrightarrow> \<exists>y. f x = Inr y) \<Longrightarrow> \<exists>ys. mapE f xs = Inr ys"
proof (induction xs)
  case Nil
  then show ?case by simp
next
  case (Cons x xs)
  then obtain y where "f x = Inr y" by auto
  moreover obtain ys where "mapE f xs = Inr ys" using Cons by auto
  ultimately show ?case by simp
qed

section \<open>Properties of \<open>ResourceChangedLogGroup.fromLogs\<close>\<close>

lemma maxResource_Max: "maxResource ls = Max (insert 0 (ResourceChangedLog.total ` set ls))"
proof -
  have "foldl (\<lambda>mx l. if ResourceChangedLog.total l > mx then ResourceChangedLog.total l else mx) m ls
        = Max (insert m (ResourceChangedLog.total ` set ls))" for m
  proof (induction ls arbitrary: m)
    case Nil
    then show ?case by simp
  next
    case (Cons l ls)
    have "Max (insert (if m < ResourceChangedLog.total l then ResourceChangedLog.total l else m) (ResourceChangedLog.total ` set ls))
      = Max (insert m (insert (ResourceChangedLog.total l) (ResourceChangedLog.total ` set ls)))"
      by (cases "ResourceChangedLog.total ` set ls = {}") (auto simp: max_def)
    then show ?case using Cons by simp
  qed
  then show ?thesis by (simp add: maxResource_def)
qed

lemma ResourceChangedLogGroup_ofGroup_Inr:
  "ResourceChangedLogGroup_ofGroup rt grp = Inr g \<Longrightarrow>
     grp \<noteq> [] \<and> logs g = grp \<and> resourceType g = rt \<and> timestamp g = timestamp (hd grp) \<and>
     valueBefore g = ResourceChangedLog.valueBefore (hd grp) \<and>
     valueAfter g = ResourceChangedLog.valueAfter (last grp) \<and>
     maxValue g = maxResource grp"
  by (auto simp: ResourceChangedLogGroup_ofGroup_def split: list.splits)

lemma ResourceChangedLogGroup_ofGroup_total:
  "grp \<noteq> [] \<Longrightarrow> \<exists>g. ResourceChangedLogGroup_ofGroup rt grp = Inr g"
  by (cases grp) (simp_all add: ResourceChangedLogGroup_ofGroup_def)

lemma list_all2_map_of:
  "list_all2 (\<lambda>k p. \<exists>v. p = (k, v) \<and> Q k v) ks res \<Longrightarrow> k \<in> set ks \<Longrightarrow>
     \<exists>v. map_of res k = Some v \<and> Q k v"
  by (induction ks res rule: list_all2_induct) auto

lemma list_all2_logs:
  "list_all2 (\<lambda>grp g. ResourceChangedLogGroup_ofGroup rt grp = Inr g) grps gs \<Longrightarrow>
     map logs gs = grps"
  by (induction grps gs rule: list_all2_induct) (auto dest: ResourceChangedLogGroup_ofGroup_Inr)

lemma successively_map_iff:
  "successively P (map f xs) \<longleftrightarrow> successively (\<lambda>x y. P (f x) (f y)) xs"
  by (induction xs rule: induct_list012) auto


lemma ResourceChangedLogGroup_fromLogs_main:
  assumes "rt \<in> set enumValues" "rt \<noteq> none"
  shows "\<exists>res gs. ResourceChangedLogGroup_fromLogs enumValues none ls = Inr res \<and>
           map_of res rt = Some gs \<and>
           list_all2 (\<lambda>grp g. ResourceChangedLogGroup_ofGroup rt grp = Inr g)
             (groupDuplicateTimestamps (resourceChangedLogsOf rt ls)) gs"
proof -
  let ?body = "\<lambda>rt. (case mapE (ResourceChangedLogGroup_ofGroup rt)
                 (groupDuplicateTimestamps (resourceChangedLogsOf rt ls)) of
                  Inl e \<Rightarrow> Inl e
                | Inr gs \<Rightarrow> Inr (rt, gs))"
  let ?rts = "filter (\<lambda>val. val \<noteq> none) enumValues"
  have F: "ResourceChangedLogGroup_fromLogs enumValues none ls = mapE ?body ?rts"
    by (simp add: ResourceChangedLogGroup_fromLogs_def resourceChangedLogsOf_def Let_def)
  have tot: "\<exists>gs. mapE (ResourceChangedLogGroup_ofGroup k)
                 (groupDuplicateTimestamps (resourceChangedLogsOf k ls)) = Inr gs" for k
  proof (rule mapE_total)
    fix grp assume "grp \<in> set (groupDuplicateTimestamps (resourceChangedLogsOf k ls))"
    then have "grp \<noteq> []"
      using groupDuplicateTimestamps_simultaneous simultaneous_def by blast
    then show "\<exists>g. ResourceChangedLogGroup_ofGroup k grp = Inr g" by (rule ResourceChangedLogGroup_ofGroup_total)
  qed
  have "\<exists>p. ?body k = Inr p" for k
    using tot [of k] by auto
  then obtain res where res: "mapE ?body ?rts = Inr res"
    using mapE_total [of ?rts ?body] by blast
  then have "list_all2 (\<lambda>k p. ?body k = Inr p) ?rts res"
    by (simp add: mapE_Inr_iff)
  then have "list_all2 (\<lambda>k p. \<exists>v. p = (k, v) \<and>
        list_all2 (\<lambda>grp g. ResourceChangedLogGroup_ofGroup k grp = Inr g)
             (groupDuplicateTimestamps (resourceChangedLogsOf k ls)) v) ?rts res"
    by (rule list_all2_mono) (auto split: sum.splits simp: mapE_Inr_iff)
  moreover have "rt \<in> set ?rts" using assms by simp
  ultimately obtain gs where "map_of res rt = Some gs"
     "list_all2 (\<lambda>grp g. ResourceChangedLogGroup_ofGroup rt grp = Inr g)
             (groupDuplicateTimestamps (resourceChangedLogsOf rt ls)) gs"
    using list_all2_map_of [of "\<lambda>k v. list_all2 (\<lambda>grp g. ResourceChangedLogGroup_ofGroup k grp = Inr g)
             (groupDuplicateTimestamps (resourceChangedLogsOf k ls)) v" ?rts res rt]
    by blast
  then show ?thesis using F res by auto
qed

text \<open>
  Claim C8. For each resource type of the enum other than \<open>ResourceTypeNone\<close>, the
  result holds one group per run of simultaneous \<open>ResourceChanged\<close> events of that
  type: the groups' logs are the runs, in order, consecutive groups differ in timestamp,
  and each group takes \<open>valueBefore\<close> from its first event, \<open>valueAfter\<close> from its last
  event and \<open>maxValue\<close> as the largest \<open>total\<close> of its events, or 0 when none is above
  0. Two simultaneous events of one type form one group, whose \<open>valueAfter\<close> is the
  second event's.
\<close>

theorem ResourceChangedLogGroup_fromLogs_groups:
  assumes "rt \<in> set enumValues" "rt \<noteq> none"
  shows "\<exists>res gs. ResourceChangedLogGroup_fromLogs enumValues none ls = Inr res \<and>
           map_of res rt = Some gs \<and>
           map logs gs = groupDuplicateTimestamps (resourceChangedLogsOf rt ls) \<and>
           concat (map logs gs) = resourceChangedLogsOf rt ls \<and>
           successively (\<lambda>g h. timestamp g \<noteq> timestamp h) gs \<and>
           (\<forall>g \<in> set gs.
              simultaneous (logs g) \<and>
              timestamp g = timestamp (hd (logs g)) \<and>
              ResourceChangedLogGroup.resourceType g = rt \<and>
              ResourceChangedLogGroup.valueBefore g = ResourceChangedLog.valueBefore (hd (logs g)) \<and>
              ResourceChangedLogGroup.valueAfter g = ResourceChangedLog.valueAfter (last (logs g)) \<and>
              maxValue g = Max (insert 0 (ResourceChangedLog.total ` set (logs g))) \<and>
              ((\<forall>l \<in> set (logs g). 0 \<le> ResourceChangedLog.total l) \<longrightarrow>
                 maxValue g = Max (ResourceChangedLog.total ` set (logs g)))) \<and>
           (\<forall>a b. ls = [ResourceChanged a, ResourceChanged b] \<and> timestamp a = timestamp b \<and>
                  ResourceChangedLog.resourceType a = rt \<and>
                  ResourceChangedLog.resourceType b = rt \<longrightarrow>
              (\<exists>g. gs = [g] \<and> logs g = [a, b] \<and>
                   ResourceChangedLogGroup.valueAfter g = ResourceChangedLog.valueAfter b))"
proof -
  let ?grps = "groupDuplicateTimestamps (resourceChangedLogsOf rt ls)"
  obtain res gs where res: "ResourceChangedLogGroup_fromLogs enumValues none ls = Inr res"
    and gs: "map_of res rt = Some gs"
    and all2: "list_all2 (\<lambda>grp g. ResourceChangedLogGroup_ofGroup rt grp = Inr g) ?grps gs"
    using ResourceChangedLogGroup_fromLogs_main [OF assms] by blast
  have lg: "map logs gs = ?grps" using all2 by (rule list_all2_logs)
  have cc: "concat (map logs gs) = resourceChangedLogsOf rt ls"
    by (simp add: lg groupDuplicateTimestamps_concat)
  have each: "ResourceChangedLogGroup_ofGroup rt (logs g) = Inr g" if "g \<in> set gs" for g
  proof -
    from that obtain i where i: "i < length gs" "gs ! i = g" by (auto simp: in_set_conv_nth)
    have "ResourceChangedLogGroup_ofGroup rt (?grps ! i) = Inr (gs ! i)"
      using all2 i(1) by (rule list_all2_nthD2)
    moreover have "?grps ! i = logs (gs ! i)"
      using lg i(1) by (metis nth_map)
    ultimately show ?thesis using i(2) by simp
  qed
  have sim: "simultaneous (logs g)" if "g \<in> set gs" for g
  proof -
    have "logs g \<in> set ?grps" using that lg by (metis image_eqI set_map)
    then show ?thesis by (rule groupDuplicateTimestamps_simultaneous)
  qed
  have props: "simultaneous (logs g) \<and>
              timestamp g = timestamp (hd (logs g)) \<and>
              resourceType g = rt \<and>
              valueBefore g = ResourceChangedLog.valueBefore (hd (logs g)) \<and>
              valueAfter g = ResourceChangedLog.valueAfter (last (logs g)) \<and>
              maxValue g = Max (insert 0 (ResourceChangedLog.total ` set (logs g))) \<and>
              ((\<forall>l \<in> set (logs g). 0 \<le> ResourceChangedLog.total l) \<longrightarrow>
                 maxValue g = Max (ResourceChangedLog.total ` set (logs g)))" if g: "g \<in> set gs" for g
  proof -
    note o = ResourceChangedLogGroup_ofGroup_Inr [OF each [OF g]]
    have ne: "logs g \<noteq> []" using o by simp
    have mx: "maxValue g = Max (insert 0 (ResourceChangedLog.total ` set (logs g)))"
      using o by (simp add: maxResource_Max)
    have "maxValue g = Max (ResourceChangedLog.total ` set (logs g))"
      if nn: "\<forall>l \<in> set (logs g). 0 \<le> ResourceChangedLog.total l"
      unfolding mx
    proof -
      have "0 \<le> ResourceChangedLog.total (hd (logs g))" using nn ne by simp
      moreover have "ResourceChangedLog.total (hd (logs g)) \<le> Max (ResourceChangedLog.total ` set (logs g))"
        using ne by simp
      ultimately have "0 \<le> Max (ResourceChangedLog.total ` set (logs g))" by linarith
      then show "Max (insert 0 (ResourceChangedLog.total ` set (logs g))) =
            Max (ResourceChangedLog.total ` set (logs g))"
        using ne by (simp add: max_def)
    qed
    then have "(\<forall>l \<in> set (logs g). 0 \<le> ResourceChangedLog.total l) \<longrightarrow>
                 maxValue g = Max (ResourceChangedLog.total ` set (logs g))" by blast
    then show ?thesis using o mx sim [OF g] by blast
  qed
  have "successively differ ?grps" by (rule groupDuplicateTimestamps_differ)
  then have "successively (\<lambda>g h. differ (logs g) (logs h)) gs"
    unfolding lg [symmetric] successively_map_iff .
  then have succ: "successively (\<lambda>g h. timestamp g \<noteq> timestamp h) gs"
  proof (rule successively_mono)
    fix g h assume "g \<in> set gs" "h \<in> set gs" "differ (logs g) (logs h)"
    then show "timestamp g \<noteq> timestamp h" using props by (simp add: differ_def)
  qed
  have two: "\<exists>g. gs = [g] \<and> logs g = [a, b] \<and>
                ResourceChangedLogGroup.valueAfter g = ResourceChangedLog.valueAfter b"
    if h: "ls = [ResourceChanged a, ResourceChanged b] \<and> timestamp a = timestamp b \<and>
        ResourceChangedLog.resourceType a = rt \<and> ResourceChangedLog.resourceType b = rt" for a b
  proof -
    have "resourceChangedLogsOf rt ls = [a, b]"
      using h by (simp add: resourceChangedLogsOf_def List.map_filter_simps)
    then have "map logs gs = [[a, b]]"
      using lg h by (simp add: groupDuplicateTimestamps_def)
    then obtain g where g: "gs = [g]" "logs g = [a, b]" by auto
    then have "ResourceChangedLogGroup.valueAfter g = ResourceChangedLog.valueAfter b"
      using props [of g] by simp
    then show ?thesis using g by simp
  qed
  show ?thesis using res gs lg cc succ props two by blast
qed

theorem ResourceChangedLogGroup_fromLogs_groups_witness:
  "\<exists>res g. ResourceChangedLogGroup_fromLogs ex_enum 0
       [ResourceChanged (ex_resource 0 1 2 100 105 1000),
        ResourceChanged (ex_resource 1 1 2 105 110 0)] = Inr res \<and>
     map_of res 2 = Some [g] \<and>
     logs g = [ex_resource 0 1 2 100 105 1000, ex_resource 1 1 2 105 110 0] \<and>
     ResourceChangedLogGroup.valueBefore g = 100 \<and>
     ResourceChangedLogGroup.valueAfter g = 110 \<and>
     maxValue g = 1000"
proof -
  let ?ls = "[ResourceChanged (ex_resource 0 1 2 100 105 1000),
              ResourceChanged (ex_resource 1 1 2 105 110 0)]"
  have "(2::int) \<in> set ex_enum" "(2::int) \<noteq> 0" by (simp_all add: ex_enum_def)
  from ResourceChangedLogGroup_fromLogs_groups [OF this, of ?ls]
  obtain res where "\<exists>gs. ResourceChangedLogGroup_fromLogs ex_enum 0 ?ls = Inr res \<and>
           map_of res 2 = Some gs \<and>
           map logs gs = groupDuplicateTimestamps (resourceChangedLogsOf 2 ?ls) \<and>
           concat (map logs gs) = resourceChangedLogsOf 2 ?ls \<and>
           successively (\<lambda>g h. timestamp g \<noteq> timestamp h) gs \<and>
           (\<forall>g \<in> set gs.
              simultaneous (logs g) \<and>
              timestamp g = timestamp (hd (logs g)) \<and>
              ResourceChangedLogGroup.resourceType g = 2 \<and>
              ResourceChangedLogGroup.valueBefore g = ResourceChangedLog.valueBefore (hd (logs g)) \<and>
              ResourceChangedLogGroup.valueAfter g = ResourceChangedLog.valueAfter (last (logs g)) \<and>
              maxValue g = Max (insert 0 (ResourceChangedLog.total ` set (logs g))) \<and>
              ((\<forall>l \<in> set (logs g). 0 \<le> ResourceChangedLog.total l) \<longrightarrow>
                 maxValue g = Max (ResourceChangedLog.total ` set (logs g)))) \<and>
           (\<forall>a b. ?ls = [ResourceChanged a, ResourceChanged b] \<and> timestamp a = timestamp b \<and>
                  ResourceChangedLog.resourceType a = 2 \<and>
                  ResourceChangedLog.resourceType b = 2 \<longrightarrow>
              (\<exists>g. gs = [g] \<and> logs g = [a, b] \<and>
                   ResourceChangedLogGroup.valueAfter g = ResourceChangedLog.valueAfter b))" ..
  then obtain gs where r: "ResourceChangedLogGroup_fromLogs ex_enum 0 ?ls = Inr res"
      "map_of res 2 = Some gs"
    and lg: "map logs gs = groupDuplicateTimestamps (resourceChangedLogsOf 2 ?ls)"
    and e: "\<forall>g \<in> set gs.
              simultaneous (logs g) \<and>
              timestamp g = timestamp (hd (logs g)) \<and>
              ResourceChangedLogGroup.resourceType g = 2 \<and>
              ResourceChangedLogGroup.valueBefore g = ResourceChangedLog.valueBefore (hd (logs g)) \<and>
              ResourceChangedLogGroup.valueAfter g = ResourceChangedLog.valueAfter (last (logs g)) \<and>
              maxValue g = Max (insert 0 (ResourceChangedLog.total ` set (logs g))) \<and>
              ((\<forall>l \<in> set (logs g). 0 \<le> ResourceChangedLog.total l) \<longrightarrow>
                 maxValue g = Max (ResourceChangedLog.total ` set (logs g)))"
    and t: "\<forall>a b. ?ls = [ResourceChanged a, ResourceChanged b] \<and> timestamp a = timestamp b \<and>
                  ResourceChangedLog.resourceType a = 2 \<and>
                  ResourceChangedLog.resourceType b = 2 \<longrightarrow>
              (\<exists>g. gs = [g] \<and> logs g = [a, b] \<and>
                   ResourceChangedLogGroup.valueAfter g = ResourceChangedLog.valueAfter b)"
    by (elim exE conjE) (rule that)
  have "\<exists>g. gs = [g] \<and>
          logs g = [ex_resource 0 1 2 100 105 1000, ex_resource 1 1 2 105 110 0] \<and>
          ResourceChangedLogGroup.valueAfter g =
            ResourceChangedLog.valueAfter (ex_resource 1 1 2 105 110 0)"
    by (rule t [rule_format]) (simp add: ex_defs)
  then obtain g where g: "gs = [g]"
    "logs g = [ex_resource 0 1 2 100 105 1000, ex_resource 1 1 2 105 110 0]"
    "ResourceChangedLogGroup.valueAfter g =
       ResourceChangedLog.valueAfter (ex_resource 1 1 2 105 110 0)"
    by (elim exE conjE) (rule that)
  have va: "ResourceChangedLogGroup.valueAfter g = 110" using g(3) by (simp add: ex_defs)
  have "g \<in> set gs" using g(1) by simp
  then have "ResourceChangedLogGroup.valueBefore g = ResourceChangedLog.valueBefore (hd (logs g))"
    "maxValue g = Max (insert 0 (ResourceChangedLog.total ` set (logs g)))"
    using e by simp_all
  then have vb: "ResourceChangedLogGroup.valueBefore g = 100" "maxValue g = 1000"
    unfolding g(2) by (simp_all add: ex_defs)
  show ?thesis using r g(1,2) va vb by blast
qed

section \<open>Properties of the rounding to a double\<close>

lemma bitLength_bounds:
  "0 < n \<Longrightarrow> 2 ^ (bitLength n - 1) \<le> n \<and> n < 2 ^ bitLength n"
proof (induction n rule: bitLength.induct)
  case (1 n)
  show ?case
  proof (cases "n div 2 = 0")
    case True
    with "1.prems" have "n = 1" by (simp add: div_eq_0_iff) 
    have "bitLength (Suc 0) = Suc 0"
      by (simp add: bitLength.simps [of "Suc 0"] bitLength.simps [of 0])
    with \<open>n = 1\<close> show ?thesis by simp
  next
    case False
    then have pos: "0 < n div 2" by simp
    from "1.prems" have n0: "n \<noteq> 0" by simp
    let ?b = "bitLength (n div 2)"
    from "1.IH" [OF n0 pos] have lo: "2 ^ (?b - 1) \<le> n div 2" and hi: "n div 2 < 2 ^ ?b"
      by simp_all
    have bpos: "0 < ?b" using pos by (simp add: bitLength.simps [of "n div 2"])
    have bl: "bitLength n = Suc ?b" using n0 by (simp add: bitLength.simps [of n])
    have "2 ^ ?b = 2 * 2 ^ (?b - 1)" using bpos by (cases ?b) simp_all
    also have "\<dots> \<le> 2 * (n div 2)" using lo by simp
    also have "\<dots> \<le> n" by simp
    finally have 1: "(2::nat) ^ ?b \<le> n" .
    have "n < 2 * (n div 2 + 1)" by simp
    also have "\<dots> \<le> 2 * 2 ^ ?b" using hi by simp
    finally have 2: "n < 2 ^ Suc ?b" by simp
    show ?thesis unfolding bl using 1 2 by simp
  qed
qed

lemma bitLength_pos: "0 < n \<Longrightarrow> 0 < bitLength n"
  by (simp add: bitLength.simps [of n])

lemma pow2_powi: "pow2 k = 2 powi k"
  by (simp add: pow2_def power_int_def inverse_eq_divide power_one_over flip: power_inverse)

lemma pow2_pos [simp]: "0 < pow2 k"
  by (simp add: pow2_powi)

lemma pow2_add: "pow2 (j + k) = pow2 j * pow2 k"
  by (simp add: pow2_powi power_int_add)

lemma pow2_mono: "j \<le> k \<Longrightarrow> pow2 j \<le> pow2 k"
  by (simp add: pow2_powi power_int_increasing)

lemma pow2_less: "pow2 j < pow2 k \<Longrightarrow> j < k"
  using pow2_mono [of k j] by (cases "j < k") auto

lemma pow2_nat: "pow2 (int n) = 2 ^ n"
  by (simp add: pow2_def)

lemma pow2_Suc: "pow2 (k + 1) = 2 * pow2 k"
  using pow2_add [of k 1] by (simp add: pow2_def)

lemma pow2_neg: "pow2 (- int j) = 1 / 2 ^ j"
proof (cases "j = 0")
  case True
  then show ?thesis by (simp add: pow2_def)
next
  case False
  then have "\<not> 0 \<le> - int j" by simp
  moreover have "nat (- (- int j)) = j" by simp
  ultimately show ?thesis unfolding pow2_def by (simp only: if_False)
qed

lemma ilog2_bounds_ge1:
  assumes "0 < a" and True: "1 \<le> a"
  shows "pow2 (ilog2 a) \<le> a \<and> a < pow2 (ilog2 a + 1)"
proof -
  let ?n = "nat \<lfloor>a\<rfloor>"
  have fl1: "1 \<le> \<lfloor>a\<rfloor>" using True by simp
  then have npos: "0 < ?n" by simp
  let ?b = "bitLength ?n"
  from bitLength_bounds [OF npos] have lo: "2 ^ (?b - 1) \<le> ?n" and hi: "?n < 2 ^ ?b" by simp_all
  have bpos: "0 < ?b" using npos by (rule bitLength_pos)
  have e: "ilog2 a = int (?b - 1)" using True bpos by (simp add: ilog2_def)
  have "pow2 (ilog2 a) = of_nat (2 ^ (?b - 1))" unfolding e pow2_nat by simp
  also have "\<dots> \<le> of_nat ?n" using lo by (simp only: of_nat_le_iff)
  also have "\<dots> = of_int \<lfloor>a\<rfloor>" using fl1 by simp
  also have "\<dots> \<le> a" by simp
  finally have 1: "pow2 (ilog2 a) \<le> a" .
  have "a < of_int \<lfloor>a\<rfloor> + 1" by linarith
  also have "\<dots> = of_nat (Suc ?n)" using fl1 by simp
  also have "\<dots> \<le> of_nat (2 ^ ?b)" using hi by (simp only: of_nat_le_iff Suc_le_eq)
  also have "\<dots> = pow2 (ilog2 a + 1)"
  proof -
    have "ilog2 a + 1 = int ?b" unfolding e using bpos by simp
    then show ?thesis by (simp add: pow2_nat)
  qed
  finally have 2: "a < pow2 (ilog2 a + 1)" .
  show ?thesis using 1 2 by simp
qed

lemma ilog2_lt1: "\<not> 1 \<le> a \<Longrightarrow> ilog2 a = - int (bitLength (nat (\<lceil>1 / a\<rceil> - 1)))"
  unfolding ilog2_def by (rule if_not_P)

lemma ilog2_bounds_lt1:
  assumes "0 < a" and False: "\<not> 1 \<le> a"
  shows "pow2 (ilog2 a) \<le> a \<and> a < pow2 (ilog2 a + 1)"
proof -
  from False have a1: "a < 1" by simp
  define y where "y = 1 / a"
  define m where "m = \<lceil>y\<rceil>"
  define n where "n = nat (m - 1)"
  define k where "k = bitLength n"
  have y1: "1 < y" unfolding y_def using assms(1) a1 by (simp add: pos_less_divide_eq)
  have cc: "of_int m - 1 < y" "y \<le> of_int m"
    unfolding m_def using ceiling_correct [of y] by simp_all
  have "1 < m" unfolding m_def less_ceiling_iff using y1 by simp
  then have m2: "2 \<le> m" by simp
  have npos: "0 < n" using m2 by (simp add: n_def)
  have "int n = m - 1" using m2 by (simp add: n_def)
  then have "(of_int (int n) :: rat) = of_int (m - 1)" by (rule arg_cong)
  then have nn: "(of_nat n :: rat) = of_int m - 1" by simp
  from bitLength_bounds [OF npos] have lo: "2 ^ (k - 1) \<le> n" and hi: "n < 2 ^ k"
    by (simp_all add: k_def)
  have kpos: "0 < k" unfolding k_def using npos by (rule bitLength_pos)
  have e: "ilog2 a = - int k" unfolding k_def n_def m_def y_def using False by (rule ilog2_lt1)
  have p: "pow2 (- int k) = 1 / 2 ^ k" by (rule pow2_neg)
  have "(of_nat (Suc n) :: rat) \<le> of_nat (2 ^ k)" using hi by (simp only: of_nat_le_iff Suc_le_eq)
  then have "of_int m \<le> (2 ^ k :: rat)" using nn by simp
  with cc(2) have "y \<le> 2 ^ k" by (rule order_trans)
  then have "1 \<le> 2 ^ k * a" unfolding y_def using assms(1) by (simp add: pos_divide_le_eq)
  then have 1: "pow2 (ilog2 a) \<le> a" unfolding e p by (simp add: pos_divide_le_eq mult.commute)
  have eq: "- int k + 1 = - int (k - 1)" using kpos by simp
  have "pow2 (- int (k - 1)) = 1 / 2 ^ (k - 1)" by (rule pow2_neg)
  then have p': "pow2 (- int k + 1) = 1 / 2 ^ (k - 1)" by (simp only: eq)
  have "(of_nat (2 ^ (k - 1)) :: rat) \<le> of_nat n" using lo by (simp only: of_nat_le_iff)
  then have "(2 ^ (k - 1) :: rat) \<le> of_int m - 1" using nn by simp
  with cc(1) have "2 ^ (k - 1) < y" by (rule order_le_less_trans [rotated])
  then have "2 ^ (k - 1) * a < 1" unfolding y_def using assms(1) by (simp add: pos_less_divide_eq)
  then have 2: "a < pow2 (ilog2 a + 1)" unfolding e p' by (simp add: pos_less_divide_eq mult.commute)
  show ?thesis using 1 2 by simp
qed

lemma ilog2_bounds:
  assumes "0 < a"
  shows "pow2 (ilog2 a) \<le> a \<and> a < pow2 (ilog2 a + 1)"
  using ilog2_bounds_ge1 [OF assms] ilog2_bounds_lt1 [OF assms] by (cases "1 \<le> a")

lemma ilog2_mono:
  assumes "0 < a" "a \<le> b"
  shows "ilog2 a \<le> ilog2 b"
proof (rule ccontr)
  assume "\<not> ilog2 a \<le> ilog2 b"
  then have "ilog2 b + 1 \<le> ilog2 a" by simp
  then have "pow2 (ilog2 b + 1) \<le> pow2 (ilog2 a)" by (rule pow2_mono)
  also have "\<dots> \<le> a" using ilog2_bounds [OF assms(1)] by simp
  also have "\<dots> \<le> b" by (rule assms(2))
  also have "\<dots> < pow2 (ilog2 b + 1)" using ilog2_bounds [of b] assms by simp
  finally show False by simp
qed

text \<open>
  Rounding is monotone, and it leaves an integer of absolute value at most \<open>2 ^ 53\<close>
  unchanged.
\<close>

lemma roundHalfEven_of_int [simp]: "roundHalfEven (of_int k) = k"
  by (simp add: roundHalfEven_def)

lemma roundHalfEven_floor:
  "roundHalfEven x = \<lfloor>x\<rfloor> \<or> roundHalfEven x = \<lfloor>x\<rfloor> + 1"
  by (simp add: roundHalfEven_def Let_def)

lemma roundHalfEven_mono:
  assumes "x \<le> y"
  shows "roundHalfEven x \<le> roundHalfEven y"
proof (cases "\<lfloor>x\<rfloor> < \<lfloor>y\<rfloor>")
  case True
  have "roundHalfEven x \<le> \<lfloor>x\<rfloor> + 1" using roundHalfEven_floor [of x] by auto
  also have "\<dots> \<le> \<lfloor>y\<rfloor>" using True by simp
  also have "\<dots> \<le> roundHalfEven y" using roundHalfEven_floor [of y] by auto
  finally show ?thesis .
next
  case False
  moreover have "\<lfloor>x\<rfloor> \<le> \<lfloor>y\<rfloor>" using assms by (rule floor_mono)
  ultimately have eq: "\<lfloor>y\<rfloor> = \<lfloor>x\<rfloor>" by simp
  define f where "f = \<lfloor>x\<rfloor>"
  define dx where "dx = x - of_int f"
  define dy where "dy = y - of_int f"
  have d: "dx \<le> dy" using assms by (simp add: dx_def dy_def)
  have rx: "roundHalfEven x = (if dx < 1 / 2 then f else if 1 / 2 < dx then f + 1
      else if even f then f else f + 1)"
    by (simp add: roundHalfEven_def Let_def f_def dx_def)
  have ry: "roundHalfEven y = (if dy < 1 / 2 then f else if 1 / 2 < dy then f + 1
      else if even f then f else f + 1)"
    by (simp add: roundHalfEven_def Let_def eq f_def dy_def)
  show ?thesis unfolding rx ry using d by auto
qed

lemma roundPositive_binade:
  "roundPositive a = of_int (roundHalfEven (a / pow2 (binade a - 52))) * pow2 (binade a - 52)"
  by (simp add: roundPositive_def Let_def)

lemma pow2_53: "pow2 53 = 2 ^ 53" "pow2 52 = 2 ^ 52"
  by (simp_all add: pow2_def)

lemma pow2_split: "pow2 (e + 1) = pow2 (e - 52) * 2 ^ 53" "pow2 e = pow2 (e - 52) * 2 ^ 52"
proof -
  have "pow2 (e + 1) = pow2 ((e - 52) + 53)" by (rule arg_cong [where f = pow2]) simp
  also have "\<dots> = pow2 (e - 52) * pow2 53" by (rule pow2_add)
  finally show "pow2 (e + 1) = pow2 (e - 52) * 2 ^ 53" by (simp only: pow2_53)
  have "pow2 e = pow2 ((e - 52) + 52)" by (rule arg_cong [where f = pow2]) simp
  also have "\<dots> = pow2 (e - 52) * pow2 52" by (rule pow2_add)
  finally show "pow2 e = pow2 (e - 52) * 2 ^ 52" by (simp only: pow2_53)
qed

lemma roundPositive_upper:
  assumes "0 < a"
  shows "roundPositive a \<le> pow2 (binade a + 1)"
proof -
  define q where "q = pow2 (binade a - 52)"
  have qpos: "0 < q" by (simp add: q_def)
  have "a < pow2 (ilog2 a + 1)" using ilog2_bounds [OF assms] by simp
  also have "\<dots> \<le> pow2 (binade a + 1)" by (rule pow2_mono) (simp add: binade_def)
  also have "\<dots> = q * 2 ^ 53" unfolding q_def by (rule pow2_split)
  finally have "a / q \<le> 2 ^ 53" using qpos by (simp add: pos_divide_le_eq mult.commute)
  then have "roundHalfEven (a / q) \<le> roundHalfEven (of_int (2 ^ 53))"
    by (intro roundHalfEven_mono) simp
  then have "roundHalfEven (a / q) \<le> 2 ^ 53" by (simp only: roundHalfEven_of_int)
  then have "(of_int (roundHalfEven (a / q)) :: rat) \<le> of_int (2 ^ 53)" by (simp only: of_int_le_iff)
  then have "of_int (roundHalfEven (a / q)) * q \<le> 2 ^ 53 * q"
    using qpos by (simp add: mult_right_mono)
  then show ?thesis
    unfolding roundPositive_binade q_def [symmetric] pow2_split(1) [of "binade a", folded q_def]
    by (simp add: mult.commute)
qed

lemma roundPositive_lower:
  assumes "0 < a" and "- 1022 \<le> ilog2 a"
  shows "pow2 (binade a) \<le> roundPositive a"
proof -
  define q where "q = pow2 (binade a - 52)"
  have qpos: "0 < q" by (simp add: q_def)
  have b: "binade a = ilog2 a" using assms(2) by (simp add: binade_def)
  have "q * 2 ^ 52 = pow2 (binade a)" unfolding q_def by (rule pow2_split(2) [symmetric])
  also have "\<dots> \<le> a" unfolding b using ilog2_bounds [OF assms(1)] by simp
  finally have "2 ^ 52 \<le> a / q" using qpos by (simp add: pos_le_divide_eq mult.commute)
  then have "roundHalfEven (of_int (2 ^ 52)) \<le> roundHalfEven (a / q)"
    by (intro roundHalfEven_mono) simp
  then have "2 ^ 52 \<le> roundHalfEven (a / q)" by (simp only: roundHalfEven_of_int)
  then have "(of_int (2 ^ 52) :: rat) \<le> of_int (roundHalfEven (a / q))" by (simp only: of_int_le_iff)
  then have "2 ^ 52 * q \<le> of_int (roundHalfEven (a / q)) * q"
    using qpos by (simp add: mult_right_mono)
  then show ?thesis
    unfolding roundPositive_binade q_def [symmetric] pow2_split(2) [of "binade a", folded q_def]
    by (simp add: mult.commute)
qed

lemma roundPositive_nonneg:
  assumes "0 < a"
  shows "0 \<le> roundPositive a"
proof -
  define q where "q = pow2 (binade a - 52)"
  have qpos: "0 < q" by (simp add: q_def)
  have "0 \<le> a / q" using assms qpos by simp
  then have "roundHalfEven (of_int 0) \<le> roundHalfEven (a / q)"
    by (intro roundHalfEven_mono) simp
  then have "0 \<le> roundHalfEven (a / q)" by (simp only: roundHalfEven_of_int)
  then show ?thesis unfolding roundPositive_binade q_def [symmetric] using qpos by simp
qed

lemma roundPositive_mono:
  assumes "0 < a" and "a \<le> b"
  shows "roundPositive a \<le> roundPositive b"
proof -
  have bpos: "0 < b" using assms by simp
  have le: "binade a \<le> binade b"
    using ilog2_mono [OF assms] by (simp add: binade_def)
  show ?thesis
  proof (cases "binade a = binade b")
    case True
    define q where "q = pow2 (binade b - 52)"
    have qpos: "0 < q" by (simp add: q_def)
    have "a / q \<le> b / q" using assms(2) qpos by (simp add: divide_right_mono)
    then have "roundHalfEven (a / q) \<le> roundHalfEven (b / q)" by (rule roundHalfEven_mono)
    then have "(of_int (roundHalfEven (a / q)) :: rat) \<le> of_int (roundHalfEven (b / q))"
      by (simp only: of_int_le_iff)
    then have "of_int (roundHalfEven (a / q)) * q \<le> of_int (roundHalfEven (b / q)) * q"
      using qpos by (simp add: mult_right_mono)
    then show ?thesis unfolding roundPositive_binade True q_def [symmetric] .
  next
    case False
    with le have lt: "binade a + 1 \<le> binade b" by simp
    then have "- 1022 < binade b" by (simp add: binade_def)
    then have ib: "- 1022 \<le> ilog2 b" by (simp add: binade_def)
    have "roundPositive a \<le> pow2 (binade a + 1)" using assms(1) by (rule roundPositive_upper)
    also have "\<dots> \<le> pow2 (binade b)" using lt by (rule pow2_mono)
    also have "\<dots> \<le> roundPositive b" using bpos ib by (rule roundPositive_lower)
    finally show ?thesis .
  qed
qed

lemma ilog2_int_bound:
  assumes "1 \<le> a" and "a \<le> 2 ^ 53"
  shows "0 \<le> ilog2 a \<and> ilog2 a \<le> 53"
proof -
  have apos: "0 < a" using assms(1) by simp
  have "pow2 0 \<le> a" using assms(1) by (simp add: pow2_def)
  also have "a < pow2 (ilog2 a + 1)" using ilog2_bounds [OF apos] by simp
  finally have "0 < ilog2 a + 1" by (rule pow2_less)
  moreover have "ilog2 a < 54"
  proof -
    have "pow2 (ilog2 a) \<le> a" using ilog2_bounds [OF apos] by simp
    also have "\<dots> \<le> 2 ^ 53" by (rule assms(2))
    also have "\<dots> < pow2 54" by (simp add: pow2_def)
    finally show ?thesis by (rule pow2_less)
  qed
  ultimately show ?thesis by simp
qed

lemma roundPositive_of_int:
  assumes "1 \<le> k" and "k \<le> 2 ^ 53"
  shows "roundPositive (of_int k) = of_int k"
proof -
  define a :: rat where "a = of_int k"
  have a1: "1 \<le> a" using assms(1) by (simp add: a_def)
  have a2: "a \<le> 2 ^ 53"
  proof -
    have "(of_int k :: rat) \<le> of_int (2 ^ 53)" using assms(2) by (simp only: of_int_le_iff)
    then show ?thesis by (simp add: a_def)
  qed
  have apos: "0 < a" using a1 by simp
  from ilog2_int_bound [OF a1 a2] have e0: "0 \<le> ilog2 a" and e53: "ilog2 a \<le> 53" by simp_all
  have b: "binade a = ilog2 a" using e0 by (simp add: binade_def)
  define q where "q = pow2 (binade a - 52)"
  have qpos: "0 < q" by (simp add: q_def)
  have "\<exists>j. a / q = of_int j"
  proof (cases "ilog2 a \<le> 52")
    case True
    define n where "n = nat (52 - ilog2 a)"
    have "ilog2 a - 52 = - int n" using True by (simp add: n_def)
    then have "q = 1 / 2 ^ n" unfolding q_def b by (simp only: pow2_neg)
    then have "a / q = of_int (k * 2 ^ n)" by (simp add: a_def)
    then show ?thesis ..
  next
    case False
    with e53 have e: "ilog2 a = 53" by simp
    have "pow2 53 \<le> a" using ilog2_bounds [OF apos] unfolding e by simp
    with a2 have "a = 2 ^ 53" by (simp add: pow2_53)
    moreover have "q = 2" unfolding q_def b e by (simp add: pow2_def)
    ultimately have "a / q = of_int (2 ^ 52)" by simp
    then show ?thesis ..
  qed
  then obtain j where j: "a / q = of_int j" ..
  have "roundPositive a = of_int (roundHalfEven (a / q)) * q"
    unfolding roundPositive_binade q_def ..
  also have "\<dots> = a / q * q" unfolding j by simp
  also have "\<dots> = a" using qpos by simp
  finally show ?thesis unfolding a_def .
qed

lemma toDouble_not_NaN [simp]: "toDouble x \<noteq> NaN"
  by (simp add: toDouble_def)

lemma toDouble_0 [simp]: "toDouble 0 = Num 0"
  by (simp add: toDouble_def)

lemma toDouble_of_int:
  assumes "\<bar>k\<bar> \<le> 2 ^ 53"
  shows "toDouble (of_int k) = Num (of_int k)"
proof -
  have big: "(of_int j :: rat) < 2 ^ 1024" if "j \<le> 2 ^ 53" for j :: int
  proof -
    have "(of_int j :: rat) \<le> of_int (2 ^ 53)" using that by (simp only: of_int_le_iff)
    also have "\<dots> < 2 ^ 1024" by simp
    finally show ?thesis .
  qed
  consider "k = 0" | "1 \<le> k" | "1 \<le> - k" by linarith
  then show ?thesis
  proof cases
    case 1
    then show ?thesis by simp
  next
    case 2
    with assms have le: "k \<le> 2 ^ 53" by simp
    have r: "roundPositive (of_int k) = of_int k" using 2 le by (rule roundPositive_of_int)
    have "(0::rat) < of_int k" using 2 by simp
    then show ?thesis unfolding toDouble_def r using big [OF le] by simp
  next
    case 3
    with assms have le: "- k \<le> 2 ^ 53" by simp
    have "roundPositive (of_int (- k)) = of_int (- k)" using 3 le by (rule roundPositive_of_int)
    then have r: "roundPositive (- of_int k) = - of_int k" by simp
    have neg: "(of_int k :: rat) < 0" using 3 by simp
    have "- (of_int k :: rat) < 2 ^ 1024" using big [OF le] by simp
    then show ?thesis unfolding toDouble_def r using neg by simp
  qed
qed

lemma dle_refl: "x \<noteq> NaN \<Longrightarrow> dle x x"
  by (cases x) (simp_all add: dle_def)

lemma dle_trans: "dle x y \<Longrightarrow> dle y z \<Longrightarrow> dle x z"
  by (cases x; cases y; cases z) (simp_all add: dle_def)

lemma dle_Num [simp]: "dle (Num a) (Num b) \<longleftrightarrow> a \<le> b"
  by (auto simp: dle_def)

lemma dle_top [simp]: "dle x Infinity \<longleftrightarrow> x \<noteq> NaN"
  by (cases x) (simp_all add: dle_def)

lemma dle_bot [simp]: "dle MinusInfinity y \<longleftrightarrow> y \<noteq> NaN"
  by (cases y) (simp_all add: dle_def)

lemma dle_False [simp]:
  "\<not> dle (Num a) MinusInfinity" "\<not> dle Infinity (Num a)" "\<not> dle Infinity MinusInfinity"
  "\<not> dle NaN y" "\<not> dle x NaN"
  by (simp_all add: dle_def)

lemma dgt_dle: "dgt x b \<Longrightarrow> dle x y \<Longrightarrow> dgt y b"
  by (cases x; cases y; cases b) (simp_all add: dle_def dgt_def)

lemma dgt_dle_bound: "dgt x c \<Longrightarrow> dle b c \<Longrightarrow> dgt x b"
  by (cases x; cases b; cases c) (simp_all add: dle_def dgt_def)

lemma toDouble_nonneg: "0 \<le> y \<Longrightarrow> dle (Num 0) (toDouble y)"
  using roundPositive_nonneg [of y] by (simp add: toDouble_def)

lemma toDouble_nonpos: "x \<le> 0 \<Longrightarrow> dle (toDouble x) (Num 0)"
  using roundPositive_nonneg [of "- x"] by (simp add: toDouble_def)

lemma toDouble_mono:
  assumes "x \<le> y"
  shows "dle (toDouble x) (toDouble y)"
proof -
  consider "0 < x" | "y < 0" | "x \<le> 0" "0 \<le> y" by linarith
  then show ?thesis
  proof cases
    case 1
    then have ypos: "0 < y" using assms by simp
    have "roundPositive x \<le> roundPositive y" using 1 assms by (rule roundPositive_mono)
    then show ?thesis using 1 ypos by (simp add: toDouble_def)
  next
    case 2
    then have xneg: "x < 0" using assms by simp
    have "roundPositive (- y) \<le> roundPositive (- x)"
      by (rule roundPositive_mono) (use 2 assms in simp_all)
    then show ?thesis using 2 xneg by (simp add: toDouble_def)
  next
    case 3
    from toDouble_nonpos [OF 3(1)] toDouble_nonneg [OF 3(2)] show ?thesis by (rule dle_trans)
  qed
qed

lemma dsub_mono: "dle x y \<Longrightarrow> dle (dsub x (Num c)) (dsub y (Num c))"
  by (cases x; cases y) (simp_all add: dsub_def toDouble_mono)

lemma dadd_not_NaN: "x \<noteq> NaN \<Longrightarrow> dadd x (Num a) \<noteq> NaN"
  by (cases x) simp_all

lemma dsub_not_NaN: "x \<noteq> NaN \<Longrightarrow> dsub x (Num a) \<noteq> NaN"
  by (cases x) (simp_all add: dsub_def)

lemma ddiv_not_NaN: "x \<noteq> NaN \<Longrightarrow> b \<noteq> 0 \<Longrightarrow> ddiv x (Num b) \<noteq> NaN"
  by (cases x) simp_all

lemma dadd_int:
  "\<bar>j + k\<bar> \<le> 2 ^ 53 \<Longrightarrow> dadd (Num (of_int j)) (Num (of_int k)) = Num (of_int (j + k))"
  using toDouble_of_int [of "j + k"] by simp

lemma dsub_int:
  "\<bar>j - k\<bar> \<le> 2 ^ 53 \<Longrightarrow> dsub (Num (of_int j)) (Num (of_int k)) = Num (of_int (j - k))"
  using toDouble_of_int [of "j - k"] by (simp add: dsub_def)

section \<open>Properties of \<open>DpsLog.fromLogs\<close>\<close>

lemma findIndex_inWindow_drop:
  "(case fst (findIndex_inWindow t0 xs tot) of None \<Rightarrow> [] | Some i \<Rightarrow> drop i xs)
     = dropWhile (\<lambda>d. \<not> inWindow t0 d) xs"
proof (induction xs arbitrary: tot)
  case Nil
  then show ?case by simp
next
  case (Cons a xs)
  show ?case
    using Cons.IH [of "dsub tot (amount a)"]
    by (cases "findIndex_inWindow t0 xs (dsub tot (amount a))")
      (auto simp: inWindow_def split: option.splits)
qed

lemma findIndex_inWindow_Cons:
  "snd (findIndex_inWindow t0 (a # xs) tot) =
     (if inWindow t0 a then tot else snd (findIndex_inWindow t0 xs (dsub tot (amount a))))"
  by (cases "findIndex_inWindow t0 xs (dsub tot (amount a))")
    (auto simp: inWindow_def split: option.splits)

lemma DpsLog_ofGroup_Cons:
  "\<exists>st dl. DpsLog_ofGroup (q, tot) (g0 # gr) = Inr (st, dl) \<and>
     fst st = dropWhile (\<lambda>d. \<not> inWindow (timestamp g0) d) (q @ g0 # gr) \<and>
     snd st = snd (findIndex_inWindow (timestamp g0) (q @ g0 # gr)
                (foldl (\<lambda>t d. dadd t (amount d)) tot (g0 # gr))) \<and>
     damageLogs dl = g0 # gr \<and> timestamp dl = timestamp g0 \<and>
     dps dl = ddiv (snd st) DPS_WINDOW"
  unfolding DpsLog_ofGroup_def
  by (simp add: Let_def findIndex_inWindow_drop del: dropWhile_append foldl_Cons)

lemma mapAccumE_Cons_Inr:
  "f s x = Inr (s', y) \<Longrightarrow> mapAccumE f s' xs = Inr ys \<Longrightarrow> mapAccumE f s (x # xs) = Inr (y # ys)"
  by simp

lemma dps_loop_shape:
  "\<forall>g \<in> set gs. g \<noteq> [] \<Longrightarrow>
   \<exists>out. mapAccumE DpsLog_ofGroup (q, tot) gs = Inr out \<and> map damageLogs out = gs \<and>
     map timestamp out = map (\<lambda>g. timestamp (hd g)) gs"
proof (induction gs arbitrary: q tot)
  case Nil
  then show ?case by simp
next
  case (Cons g gs)
  obtain g0 gr where g: "g = g0 # gr" using Cons.prems by (cases g) auto
  obtain st dl where st: "DpsLog_ofGroup (q, tot) g = Inr (st, dl)"
    and dl: "damageLogs dl = g" "timestamp dl = timestamp g0"
    using DpsLog_ofGroup_Cons [of q tot g0 gr] g by auto
  obtain out where out: "mapAccumE DpsLog_ofGroup (fst st, snd st) gs = Inr out"
    "map damageLogs out = gs" "map timestamp out = map (\<lambda>g. timestamp (hd g)) gs"
    using Cons.IH [of "fst st" "snd st"] Cons.prems by auto
  have "mapAccumE DpsLog_ofGroup (q, tot) (g # gs) = Inr (dl # out)"
    using st out(1) by simp
  then show ?case using dl out g by simp
qed

subsection \<open>A total that is not NaN\<close>

lemma isFinite_Num: "isFinite x \<Longrightarrow> \<exists>a. x = Num a"
  by (cases x) (simp_all add: isFinite_def)

lemma foldl_dadd_not_NaN:
  "tot \<noteq> NaN \<Longrightarrow> list_all (\<lambda>d. isFinite (amount d)) g \<Longrightarrow>
   foldl (\<lambda>t d. dadd t (amount d)) tot g \<noteq> NaN"
proof (induction g arbitrary: tot)
  case Nil
  then show ?case by simp
next
  case (Cons a g)
  from Cons.prems(2) obtain v where v: "amount a = Num v" by (auto dest: isFinite_Num)
  have "dadd tot (amount a) \<noteq> NaN" unfolding v using Cons.prems(1) by (rule dadd_not_NaN)
  then show ?case using Cons.IH [of "dadd tot (amount a)"] Cons.prems(2) by simp
qed

lemma findIndex_inWindow_not_NaN:
  "tot \<noteq> NaN \<Longrightarrow> list_all (\<lambda>d. isFinite (amount d)) xs \<Longrightarrow>
   snd (findIndex_inWindow t0 xs tot) \<noteq> NaN"
proof (induction xs arbitrary: tot)
  case Nil
  then show ?case by simp
next
  case (Cons a xs)
  from Cons.prems(2) obtain v where v: "amount a = Num v" by (auto dest: isFinite_Num)
  have "dsub tot (amount a) \<noteq> NaN" unfolding v using Cons.prems(1) by (rule dsub_not_NaN)
  then have "snd (findIndex_inWindow t0 xs (dsub tot (amount a))) \<noteq> NaN"
    using Cons.IH [of "dsub tot (amount a)"] Cons.prems(2) by simp
  then show ?case unfolding findIndex_inWindow_Cons using Cons.prems(1) by simp
qed

lemma list_all_dropWhile: "list_all P xs \<Longrightarrow> list_all P (dropWhile Q xs)"
  by (induction xs) simp_all

lemma DpsLog_ofGroup_not_NaN:
  assumes "tot \<noteq> NaN" and "list_all (\<lambda>d. isFinite (amount d)) (q @ g0 # gr)"
  shows "\<exists>st dl. DpsLog_ofGroup (q, tot) (g0 # gr) = Inr (st, dl) \<and> snd st \<noteq> NaN \<and>
           list_all (\<lambda>d. isFinite (amount d)) (fst st) \<and> \<not> isNaN (dps dl)"
proof -
  let ?g = "g0 # gr"
  from assms(2) have fg: "list_all (\<lambda>d. isFinite (amount d)) ?g" by simp
  obtain st dl where st: "DpsLog_ofGroup (q, tot) ?g = Inr (st, dl)"
    and q': "fst st = dropWhile (\<lambda>d. \<not> inWindow (timestamp g0) d) (q @ ?g)"
    and t': "snd st = snd (findIndex_inWindow (timestamp g0) (q @ ?g)
                (foldl (\<lambda>t d. dadd t (amount d)) tot ?g))"
    and dl: "dps dl = ddiv (snd st) DPS_WINDOW"
    using DpsLog_ofGroup_Cons [of q tot g0 gr] by (elim exE conjE) (rule that)
  have "foldl (\<lambda>t d. dadd t (amount d)) tot ?g \<noteq> NaN"
    using assms(1) fg by (rule foldl_dadd_not_NaN)
  then have tn: "snd st \<noteq> NaN" unfolding t' using assms(2) by (rule findIndex_inWindow_not_NaN)
  have fq': "list_all (\<lambda>d. isFinite (amount d)) (fst st)"
    unfolding q' using assms(2) by (rule list_all_dropWhile)
  have dn: "\<not> isNaN (dps dl)"
    unfolding dl DPS_WINDOW_def isNaN_def using tn by (intro ddiv_not_NaN) simp_all
  show ?thesis using st tn fq' dn by (intro exI [of _ st] exI [of _ dl]) simp
qed

lemma dps_loop_not_NaN:
  assumes "\<forall>g \<in> set gs. g \<noteq> []" and "tot \<noteq> NaN"
    and "list_all (\<lambda>d. isFinite (amount d)) q"
    and "list_all (\<lambda>d. isFinite (amount d)) (concat gs)"
  shows "\<exists>out. mapAccumE DpsLog_ofGroup (q, tot) gs = Inr out \<and>
           (\<forall>dl \<in> set out. \<not> isNaN (dps dl))"
  using assms
proof (induction gs arbitrary: q tot)
  case Nil
  then show ?case by simp
next
  case (Cons g gs)
  obtain g0 gr where g: "g = g0 # gr" using Cons.prems(1) by (cases g) auto
  have fgs: "list_all (\<lambda>d. isFinite (amount d)) (concat gs)"
    and fqg: "list_all (\<lambda>d. isFinite (amount d)) (q @ g0 # gr)"
    using Cons.prems(3,4) g by simp_all
  from DpsLog_ofGroup_not_NaN [OF Cons.prems(2) fqg]
  obtain st dl where st: "DpsLog_ofGroup (q, tot) (g0 # gr) = Inr (st, dl)"
    and tn: "snd st \<noteq> NaN"
    and fq': "list_all (\<lambda>d. isFinite (amount d)) (fst st)"
    and dn: "\<not> isNaN (dps dl)"
    by (elim exE conjE) (rule that)
  obtain out where out: "mapAccumE DpsLog_ofGroup (fst st, snd st) gs = Inr out"
    "\<forall>dl \<in> set out. \<not> isNaN (dps dl)"
    using Cons.IH [OF _ tn fq' fgs] Cons.prems(1) by auto
  have "mapAccumE DpsLog_ofGroup (q, tot) (g # gs) = Inr (dl # out)"
    using st out(1) unfolding g by simp
  then show ?case using dn out(2) by simp
qed

subsection \<open>Exact totals\<close>

lemma integerAmount_Num:
  "integerAmount d \<Longrightarrow> amount d = Num (amountValue d) \<and> amountValue d \<in> \<int>"
proof -
  assume a: "integerAmount d"
  then obtain v where v: "amount d = Num v" "of_int \<lfloor>v\<rfloor> = v"
    by (cases "amount d") (simp_all add: integerAmount_def)
  have "v \<in> \<int>" using v(2) by (metis Ints_of_int)
  then show ?thesis using v(1) by (simp add: amountValue_def)
qed

lemma toDouble_Ints:
  assumes "a \<in> \<int>" and "\<bar>a\<bar> \<le> 2 ^ 53"
  shows "toDouble a = Num a"
proof -
  from assms(1) obtain k where k: "a = of_int k" by (rule Ints_cases)
  have "(of_int \<bar>k\<bar> :: rat) \<le> of_int (2 ^ 53)" using assms(2) unfolding k by simp
  then have "\<bar>k\<bar> \<le> 2 ^ 53" by (simp only: of_int_le_iff)
  then show ?thesis unfolding k by (rule toDouble_of_int)
qed

lemma sum_list_Ints: "(\<forall>x \<in> set xs. f x \<in> \<int>) \<Longrightarrow> sum_list (map f xs) \<in> \<int>"
  by (induction xs) simp_all

lemma sum_amountValue_Ints:
  "list_all integerAmount xs \<Longrightarrow> sum_list (map amountValue xs) \<in> \<int>"
  by (rule sum_list_Ints) (simp add: list_all_iff integerAmount_Num)

lemma abs_sum_amountValue:
  "\<bar>sum_list (map amountValue xs)\<bar> \<le> sum_list (map (\<lambda>d. \<bar>amountValue d\<bar>) xs)"
  using sum_list_abs [of "map amountValue xs"] by (simp add: comp_def)

lemma foldl_dadd_exact:
  "s \<in> \<int> \<Longrightarrow> list_all integerAmount g \<Longrightarrow>
   \<bar>s\<bar> + sum_list (map (\<lambda>d. \<bar>amountValue d\<bar>) g) \<le> 2 ^ 53 \<Longrightarrow>
   foldl (\<lambda>t d. dadd t (amount d)) (Num s) g = Num (s + sum_list (map amountValue g))"
proof (induction g arbitrary: s)
  case Nil
  then show ?case by simp
next
  case (Cons a g)
  from Cons.prems(2) have ia: "integerAmount a" and ig: "list_all integerAmount g" by simp_all
  from integerAmount_Num [OF ia] have am: "amount a = Num (amountValue a)"
    and ai: "amountValue a \<in> \<int>" by simp_all
  have nn: "0 \<le> sum_list (map (\<lambda>d. \<bar>amountValue d\<bar>) g)" by (rule sum_list_nonneg) auto
  have si: "s + amountValue a \<in> \<int>" using Cons.prems(1) ai by (rule Ints_add)
  have "\<bar>s + amountValue a\<bar> \<le> \<bar>s\<bar> + \<bar>amountValue a\<bar>" by (rule abs_triangle_ineq)
  then have b1: "\<bar>s + amountValue a\<bar> + sum_list (map (\<lambda>d. \<bar>amountValue d\<bar>) g) \<le> 2 ^ 53"
    using Cons.prems(3) by simp
  then have b2: "\<bar>s + amountValue a\<bar> \<le> 2 ^ 53" using nn by linarith
  have step: "dadd (Num s) (amount a) = Num (s + amountValue a)"
    unfolding am using toDouble_Ints [OF si b2] by simp
  have "foldl (\<lambda>t d. dadd t (amount d)) (Num s) (a # g) =
          foldl (\<lambda>t d. dadd t (amount d)) (Num (s + amountValue a)) g"
    by (simp add: step)
  also have "\<dots> = Num (s + amountValue a + sum_list (map amountValue g))"
    using si ig b1 by (rule Cons.IH)
  finally show ?case by (simp add: add.assoc)
qed

lemma findIndex_inWindow_exact:
  "list_all integerAmount xs \<Longrightarrow> sum_list (map (\<lambda>d. \<bar>amountValue d\<bar>) xs) \<le> 2 ^ 53 \<Longrightarrow>
   snd (findIndex_inWindow t0 xs (Num (sum_list (map amountValue xs)))) =
     Num (sum_list (map amountValue (dropWhile (\<lambda>d. \<not> inWindow t0 d) xs)))"
proof (induction xs)
  case Nil
  then show ?case by simp
next
  case (Cons a xs)
  from Cons.prems(1) have ia: "integerAmount a" and ix: "list_all integerAmount xs" by simp_all
  from integerAmount_Num [OF ia] have am: "amount a = Num (amountValue a)"
    and ai: "amountValue a \<in> \<int>" by simp_all
  have bx: "sum_list (map (\<lambda>d. \<bar>amountValue d\<bar>) xs) \<le> 2 ^ 53"
    using Cons.prems(2) by simp
  show ?case
  proof (cases "inWindow t0 a")
    case True
    then show ?thesis unfolding findIndex_inWindow_Cons by simp
  next
    case False
    have xi: "sum_list (map amountValue xs) \<in> \<int>" using ix by (rule sum_amountValue_Ints)
    have "\<bar>sum_list (map amountValue xs)\<bar> \<le> 2 ^ 53"
      using abs_sum_amountValue [of xs] bx by (rule order_trans)
    from toDouble_Ints [OF xi this]
    have "dsub (Num (sum_list (map amountValue (a # xs)))) (amount a) =
            Num (sum_list (map amountValue xs))"
      unfolding am by (simp add: dsub_def)
    then show ?thesis
      unfolding findIndex_inWindow_Cons using False Cons.IH [OF ix bx] by simp
  qed
qed

lemma DpsLog_ofGroup_exact:
  assumes "list_all integerAmount (q @ g0 # gr)"
    and "sum_list (map (\<lambda>d. \<bar>amountValue d\<bar>) (q @ g0 # gr)) \<le> 2 ^ 53"
  shows "\<exists>dl. DpsLog_ofGroup (q, Num (sum_list (map amountValue q))) (g0 # gr) =
           Inr ((dropWhile (\<lambda>d. \<not> inWindow (timestamp g0) d) (q @ g0 # gr),
                 Num (sum_list (map amountValue
                   (dropWhile (\<lambda>d. \<not> inWindow (timestamp g0) d) (q @ g0 # gr))))), dl) \<and>
         timestamp dl = timestamp g0 \<and>
         dps dl = toDouble (sum_list (map amountValue
                   (dropWhile (\<lambda>d. \<not> inWindow (timestamp g0) d) (q @ g0 # gr))) / 15)"
proof -
  let ?g = "g0 # gr"
  let ?Q = "dropWhile (\<lambda>d. \<not> inWindow (timestamp g0) d) (q @ ?g)"
  from assms(1) have iq: "list_all integerAmount q" and ig: "list_all integerAmount ?g" by simp_all
  have qi: "sum_list (map amountValue q) \<in> \<int>" using iq by (rule sum_amountValue_Ints)
  have "\<bar>sum_list (map amountValue q)\<bar> + sum_list (map (\<lambda>d. \<bar>amountValue d\<bar>) ?g)
          \<le> sum_list (map (\<lambda>d. \<bar>amountValue d\<bar>) q) + sum_list (map (\<lambda>d. \<bar>amountValue d\<bar>) ?g)"
    using abs_sum_amountValue [of q] by simp
  also have "\<dots> = sum_list (map (\<lambda>d. \<bar>amountValue d\<bar>) (q @ ?g))" by simp
  also have "\<dots> \<le> 2 ^ 53" by (rule assms(2))
  finally have bnd: "\<bar>sum_list (map amountValue q)\<bar> + sum_list (map (\<lambda>d. \<bar>amountValue d\<bar>) ?g)
      \<le> 2 ^ 53" .
  have added: "foldl (\<lambda>t d. dadd t (amount d)) (Num (sum_list (map amountValue q))) ?g =
      Num (sum_list (map amountValue (q @ ?g)))"
    using foldl_dadd_exact [OF qi ig bnd] by simp
  obtain st dl where st: "DpsLog_ofGroup (q, Num (sum_list (map amountValue q))) ?g = Inr (st, dl)"
    and q': "fst st = ?Q"
    and t': "snd st = snd (findIndex_inWindow (timestamp g0) (q @ ?g)
                (foldl (\<lambda>t d. dadd t (amount d)) (Num (sum_list (map amountValue q))) ?g))"
    and ts: "timestamp dl = timestamp g0"
    and dl: "dps dl = ddiv (snd st) DPS_WINDOW"
    using DpsLog_ofGroup_Cons [of q "Num (sum_list (map amountValue q))" g0 gr]
    by (elim exE conjE) (rule that)
  have tot: "snd st = Num (sum_list (map amountValue ?Q))"
    unfolding t' added using assms by (rule findIndex_inWindow_exact)
  have "st = (?Q, Num (sum_list (map amountValue ?Q)))" using q' tot by (cases st) simp
  moreover have "dps dl = toDouble (sum_list (map amountValue ?Q) / 15)"
    unfolding dl tot DPS_WINDOW_def by simp
  ultimately show ?thesis using st ts by (intro exI [of _ dl]) simp
qed

lemma dropWhile_filter_closed:
  "sorted_wrt (\<lambda>x y. P x \<longrightarrow> P y) xs \<Longrightarrow> dropWhile (\<lambda>x. \<not> P x) xs = filter P xs"
proof (induction xs)
  case Nil
  then show ?case by simp
next
  case (Cons x xs)
  show ?case
  proof (cases "P x")
    case True
    then have "\<forall>y \<in> set xs. P y" using Cons.prems by simp
    then have "filter P xs = xs" by simp
    then show ?thesis using True by simp
  next
    case False
    then show ?thesis using Cons by simp
  qed
qed

lemma inWindow_closed:
  assumes "sorted (map timestamp xs)"
  shows "sorted_wrt (\<lambda>x y. inWindow t x \<longrightarrow> inWindow t y) xs"
proof -
  have "sorted_wrt (\<lambda>x y. timestamp x \<le> timestamp y) xs"
    using assms by (simp add: sorted_map)
  then show ?thesis
  proof (rule sorted_wrt_mono_rel [rotated])
    fix x y
    assume "timestamp x \<le> timestamp y"
    then have "dle (toDouble (timestamp x)) (toDouble (timestamp y))" by (rule toDouble_mono)
    then show "inWindow t x \<longrightarrow> inWindow t y"
      unfolding inWindow_def by (auto intro: dgt_dle)
  qed
qed

lemma sum_list_filter_le:
  "(\<forall>x \<in> set xs. (0::rat) \<le> f x) \<Longrightarrow> sum_list (map f (filter P xs)) \<le> sum_list (map f xs)"
  by (induction xs) (auto intro: add_increasing)

subsection \<open>The window of a group\<close>

lemma dps_loop_exact:
  assumes "\<forall>g \<in> set gs. simultaneous g"
    and "sorted (map timestamp (seen @ concat gs))"
    and "successively differ gs"
    and "q = filter (\<lambda>d. dgt (toDouble (timestamp d)) b) seen"
    and "\<forall>d \<in> set (concat gs). dle b (dsub (toDouble (timestamp d)) DPS_WINDOW)"
    and "list_all integerAmount (seen @ concat gs)"
    and "sum_list (map (\<lambda>d. \<bar>amountValue d\<bar>) (seen @ concat gs)) \<le> 2 ^ 53"
  shows "\<exists>out. mapAccumE DpsLog_ofGroup (q, Num (sum_list (map amountValue q))) gs = Inr out \<and>
           (\<forall>dl \<in> set out. dps dl =
              toDouble (sum_list (map amountValue (windowOf (seen @ concat gs) (timestamp dl))) / 15))"
  using assms
proof (induction gs arbitrary: seen q b)
  case Nil
  then show ?case by simp
next
  case (Cons g gs)
  have simg: "simultaneous g" using Cons.prems(1) by simp
  then obtain g0 gr where g: "g = g0 # gr" by (cases g) (auto simp: simultaneous_def)
  let ?t = "timestamp g0"
  let ?b' = "dsub (toDouble ?t) DPS_WINDOW"
  have gts: "\<forall>d \<in> set g. timestamp d = ?t" using simg g by (simp add: simultaneous_def)
  have sorted_all: "sorted (map timestamp (seen @ g @ concat gs))" using Cons.prems(2) by simp
  have seen_le: "\<forall>d \<in> set seen. timestamp d \<le> ?t"
    using sorted_all g by (auto simp: sorted_append)
  have b_le: "dle b ?b'" using Cons.prems(5) g by simp
  \<comment> \<open>the later groups are strictly later\<close>
  have later: "\<forall>d \<in> set (concat gs). ?t < timestamp d"
  proof (cases gs)
    case Nil
    then show ?thesis by simp
  next
    case (Cons h hs)
    have "simultaneous h" using Cons.prems(1) \<open>gs = h # hs\<close> Cons by simp
    then obtain h0 hr where h: "h = h0 # hr" by (cases h) (auto simp: simultaneous_def)
    have "differ g h" using Cons.prems(3) Cons by simp
    then have ne: "?t \<noteq> timestamp h0" using g h by (simp add: differ_def)
    have "?t \<le> timestamp h0" using sorted_all g h Cons by (auto simp: sorted_append)
    then have lt: "?t < timestamp h0" using ne by simp
    have "\<forall>d \<in> set (concat gs). timestamp h0 \<le> timestamp d"
      using sorted_all h Cons by (auto simp: sorted_append)
    then show ?thesis using lt by fastforce
  qed
  \<comment> \<open>the queue after this group\<close>
  let ?q' = "dropWhile (\<lambda>d. \<not> inWindow ?t d) (q @ g)"
  have "sorted (map timestamp (q @ g))"
    using sorted_all unfolding Cons.prems(4)
    by (auto simp: sorted_append intro: sorted_filter [of timestamp, unfolded comp_def])
  then have "sorted_wrt (\<lambda>x y. inWindow ?t x \<longrightarrow> inWindow ?t y) (q @ g)"
    by (rule inWindow_closed)
  then have "?q' = filter (inWindow ?t) (q @ g)" by (rule dropWhile_filter_closed)
  also have "\<dots> = filter (inWindow ?t) (seen @ g)"
  proof -
    have "filter (inWindow ?t) q = filter (inWindow ?t) seen"
      unfolding Cons.prems(4) filter_filter
    proof (rule filter_cong [OF refl])
      fix d
      show "(dgt (toDouble (timestamp d)) b \<and> inWindow ?t d) = inWindow ?t d"
        unfolding inWindow_def using dgt_dle_bound [OF _ b_le] by blast
    qed
    then show ?thesis by simp
  qed
  finally have q': "?q' = filter (inWindow ?t) (seen @ g)" .
  have eqf: "inWindow ?t = (\<lambda>d. dgt (toDouble (timestamp d)) ?b')"
    by (rule ext) (simp add: inWindow_def)
  have q'b: "?q' = filter (\<lambda>d. dgt (toDouble (timestamp d)) ?b') (seen @ g)"
    by (rule trans [OF q']) (simp only: eqf)
  \<comment> \<open>the amounts met so far are integers within the bound\<close>
  have iall: "list_all integerAmount (seen @ g @ concat gs)" using Cons.prems(6) by simp
  have sall: "sum_list (map (\<lambda>d. \<bar>amountValue d\<bar>) (seen @ g @ concat gs)) \<le> 2 ^ 53"
    using Cons.prems(7) by simp
  have iqg: "list_all integerAmount (q @ g)"
    using iall unfolding Cons.prems(4) by (auto simp: list_all_iff)
  have "sum_list (map (\<lambda>d. \<bar>amountValue d\<bar>) (q @ g))
          \<le> sum_list (map (\<lambda>d. \<bar>amountValue d\<bar>) (seen @ g))"
    unfolding Cons.prems(4) using sum_list_filter_le [of seen "\<lambda>d. \<bar>amountValue d\<bar>"] by simp
  also have "\<dots> \<le> sum_list (map (\<lambda>d. \<bar>amountValue d\<bar>) (seen @ g @ concat gs))"
  proof -
    have "0 \<le> sum_list (map (\<lambda>d. \<bar>amountValue d\<bar>) (concat gs))"
      by (rule sum_list_nonneg) auto
    then show ?thesis by simp
  qed
  finally have sqg: "sum_list (map (\<lambda>d. \<bar>amountValue d\<bar>) (q @ g)) \<le> 2 ^ 53"
    using sall by simp
  have iqg0: "list_all integerAmount (q @ g0 # gr)" using iqg unfolding g .
  have sqg0: "sum_list (map (\<lambda>d. \<bar>amountValue d\<bar>) (q @ g0 # gr)) \<le> 2 ^ 53"
    using sqg unfolding g .
  from DpsLog_ofGroup_exact [OF iqg0 sqg0]
  obtain dl where step0: "DpsLog_ofGroup (q, Num (sum_list (map amountValue q))) (g0 # gr) =
        Inr ((dropWhile (\<lambda>d. \<not> inWindow ?t d) (q @ g0 # gr),
              Num (sum_list (map amountValue
                (dropWhile (\<lambda>d. \<not> inWindow ?t d) (q @ g0 # gr))))), dl)"
    and dl0: "timestamp dl = ?t"
      "dps dl = toDouble (sum_list (map amountValue
                (dropWhile (\<lambda>d. \<not> inWindow ?t d) (q @ g0 # gr))) / 15)"
    by (elim exE conjE) (rule that)
  have step: "DpsLog_ofGroup (q, Num (sum_list (map amountValue q))) g =
        Inr ((?q', Num (sum_list (map amountValue ?q'))), dl)"
    using step0 unfolding g .
  have dl: "timestamp dl = ?t" "dps dl = toDouble (sum_list (map amountValue ?q') / 15)"
    using dl0 unfolding g .
  have win: "windowOf (seen @ concat (g # gs)) ?t = ?q'"
  proof -
    have 1: "filter (\<lambda>d. inWindow ?t d \<and> timestamp d \<le> ?t) (seen @ g)
           = filter (inWindow ?t) (seen @ g)"
      by (rule filter_cong) (use seen_le gts in auto)
    have 2: "filter (\<lambda>d. inWindow ?t d \<and> timestamp d \<le> ?t) (concat gs) = []"
      unfolding filter_empty_conv using later by fastforce
    have "filter (\<lambda>d. inWindow ?t d \<and> timestamp d \<le> ?t) (seen @ concat (g # gs))
        = filter (\<lambda>d. inWindow ?t d \<and> timestamp d \<le> ?t) (seen @ g)
          @ filter (\<lambda>d. inWindow ?t d \<and> timestamp d \<le> ?t) (concat gs)"
      by simp
    then show ?thesis unfolding windowOf_def 1 2 q' by simp
  qed
  have ih: "\<exists>out. mapAccumE DpsLog_ofGroup (?q', Num (sum_list (map amountValue ?q'))) gs = Inr out \<and>
           (\<forall>dl \<in> set out. dps dl =
              toDouble (sum_list (map amountValue (windowOf ((seen @ g) @ concat gs) (timestamp dl))) / 15))"
  proof (rule Cons.IH [of "seen @ g" ?q' ?b'])
    show "\<forall>g \<in> set gs. simultaneous g" using Cons.prems(1) by simp
    show "sorted (map timestamp ((seen @ g) @ concat gs))" using sorted_all by simp
    show "successively differ gs" using Cons.prems(3) by (cases gs) simp_all
    show "?q' = filter (\<lambda>d. dgt (toDouble (timestamp d)) ?b') (seen @ g)" by (rule q'b)
    show "\<forall>d \<in> set (concat gs). dle ?b' (dsub (toDouble (timestamp d)) DPS_WINDOW)"
    proof
      fix d assume "d \<in> set (concat gs)"
      then have "?t \<le> timestamp d" using later by fastforce
      then have "dle (toDouble ?t) (toDouble (timestamp d))" by (rule toDouble_mono)
      then show "dle ?b' (dsub (toDouble (timestamp d)) DPS_WINDOW)"
        unfolding DPS_WINDOW_def by (rule dsub_mono)
    qed
    show "list_all integerAmount ((seen @ g) @ concat gs)" using iall by simp
    show "sum_list (map (\<lambda>d. \<bar>amountValue d\<bar>) ((seen @ g) @ concat gs)) \<le> 2 ^ 53"
      using sall by simp
  qed
  then obtain out where out: "mapAccumE DpsLog_ofGroup (?q', Num (sum_list (map amountValue ?q'))) gs = Inr out"
    "\<forall>dl \<in> set out. dps dl =
       toDouble (sum_list (map amountValue (windowOf ((seen @ g) @ concat gs) (timestamp dl))) / 15)"
    by blast
  have "mapAccumE DpsLog_ofGroup (q, Num (sum_list (map amountValue q))) (g # gs) = Inr (dl # out)"
    using step out(1) by simp
  moreover have "\<forall>x \<in> set (dl # out). dps x =
      toDouble (sum_list (map amountValue (windowOf (seen @ concat (g # gs)) (timestamp x))) / 15)"
    using out(2) dl win by simp
  ultimately show ?case by blast
qed

lemma DpsLog_fromLogs_main:
  "\<exists>out. DpsLog_fromLogs ls = Inr out \<and>
      map damageLogs out = groupDuplicateTimestamps ls \<and>
      map timestamp out = map (\<lambda>g. timestamp (hd g)) (groupDuplicateTimestamps ls) \<and>
      (list_all (\<lambda>d. isFinite (amount d)) ls \<longrightarrow> (\<forall>dl \<in> set out. \<not> isNaN (dps dl))) \<and>
      (sorted (map timestamp ls) \<and> integerAmounts ls \<longrightarrow>
         (\<forall>dl \<in> set out. dps dl =
            toDouble (sum_list (map amountValue (windowOf ls (timestamp dl))) / 15)))"
proof -
  let ?gs = "groupDuplicateTimestamps ls"
  let ?e = "[] :: 'a DamageDealtLog list"
  have sim: "\<forall>g \<in> set ?gs. simultaneous g"
    using groupDuplicateTimestamps_simultaneous by blast
  then have ne: "\<forall>g \<in> set ?gs. g \<noteq> []" by (simp add: simultaneous_def)
  obtain out where out: "DpsLog_fromLogs ls = Inr out" "map damageLogs out = ?gs"
    "map timestamp out = map (\<lambda>g. timestamp (hd g)) ?gs"
    using dps_loop_shape [OF ne, of "[]" "Num 0"] by (auto simp: DpsLog_fromLogs_def)
  have nan: "\<forall>dl \<in> set out. \<not> isNaN (dps dl)"
    if fin: "list_all (\<lambda>d. isFinite (amount d)) ls"
  proof -
    have "\<exists>out. mapAccumE DpsLog_ofGroup (?e, Num 0) ?gs = Inr out \<and>
           (\<forall>dl \<in> set out. \<not> isNaN (dps dl))"
      by (rule dps_loop_not_NaN [OF ne]) (use fin in \<open>simp_all add: groupDuplicateTimestamps_concat\<close>)
    then show ?thesis using out(1) by (simp add: DpsLog_fromLogs_def)
  qed
  have win: "\<forall>dl \<in> set out. dps dl =
      toDouble (sum_list (map amountValue (windowOf ls (timestamp dl))) / 15)"
    if srt: "sorted (map timestamp ls)" and ints: "integerAmounts ls"
  proof -
    have bb: "\<forall>d \<in> set (concat ?gs). dle MinusInfinity (dsub (toDouble (timestamp d)) DPS_WINDOW)"
      by (simp add: DPS_WINDOW_def dsub_not_NaN)
    have "\<exists>out. mapAccumE DpsLog_ofGroup (?e, Num (sum_list (map amountValue ?e))) ?gs = Inr out \<and>
           (\<forall>dl \<in> set out. dps dl =
              toDouble (sum_list (map amountValue (windowOf (?e @ concat ?gs) (timestamp dl))) / 15))"
      using dps_loop_exact [of ?gs ?e ?e MinusInfinity] sim srt bb ints
      by (simp add: groupDuplicateTimestamps_concat groupDuplicateTimestamps_differ
          integerAmounts_def)
    then show ?thesis
      using out(1) by (simp add: DpsLog_fromLogs_def groupDuplicateTimestamps_concat)
  qed
  show ?thesis using out nan win by blast
qed

subsection \<open>Evaluating the rounding\<close>

lemma floor_rat_numeral:
  "\<lfloor>(numeral a :: rat) / numeral b\<rfloor> = numeral a div numeral b"
  using floor_divide_of_int_eq [of "numeral a" "numeral b", where ?'a = rat] by simp

lemma ceiling_rat_numeral:
  "\<lceil>(numeral a :: rat) / numeral b\<rceil> = - (- numeral a div numeral b)"
  using floor_divide_of_int_eq [of "- numeral a" "numeral b", where ?'a = rat]
  by (simp add: ceiling_def)

lemmas dbl_eval = toDouble_def roundPositive_def binade_def ilog2_def pow2_def roundHalfEven_def
  Let_def bitLength.simps floor_rat_numeral ceiling_rat_numeral dsub_def dgt_def

lemmas dps_eval = DpsLog_fromLogs_def DpsLog_ofGroup_def groupDuplicateTimestamps_def
  DPS_WINDOW_def windowOf_def inWindow_def amountValue_def integerAmounts_def integerAmount_def
  isFinite_def isNaN_def

text \<open>
  Claim C7, as the code has it. \<open>DpsLog.fromLogs\<close> returns one \<open>DpsLog\<close> per group of
  simultaneous damage events, in order, each carrying its group. When every amount is
  finite, no dps is NaN. When the damage events are in time order and the amounts are
  integers whose absolute values sum to at most \<open>2 ^ 53\<close>, so that the additions and
  subtractions of the running total are exact, the dps of a group is the sum of the
  amounts of the events in its window, divided by 15 and rounded; the window holds the
  events not later than the group whose timestamp is greater than the timestamp of the
  group minus 15, as the code computes it. The divisor is the constant 15, and a single
  event of amount 150 at time 0 gives dps 10.
\<close>

theorem DpsLog_fromLogs_window:
  "(\<exists>out. DpsLog_fromLogs ls = Inr out \<and>
      map damageLogs out = groupDuplicateTimestamps ls \<and>
      map timestamp out = map (\<lambda>g. timestamp (hd g)) (groupDuplicateTimestamps ls) \<and>
      (list_all (\<lambda>d. isFinite (amount d)) ls \<longrightarrow> (\<forall>dl \<in> set out. \<not> isNaN (dps dl))) \<and>
      (sorted (map timestamp ls) \<and> integerAmounts ls \<longrightarrow>
         (\<forall>dl \<in> set out. dps dl =
            toDouble (sum_list (map amountValue (windowOf ls (timestamp dl))) / 15)))) \<and>
   DPS_WINDOW = Num 15 \<and>
   (\<forall>d. timestamp d = 0 \<and> amount d = Num 150 \<longrightarrow>
      (\<exists>dl. DpsLog_fromLogs [d] = Inr [dl] \<and> dps dl = Num 10))"
proof -
  have single: "\<exists>dl. DpsLog_fromLogs [d] = Inr [dl] \<and> dps dl = Num 10"
    if t: "timestamp d = 0" and a: "amount d = Num 150" for d :: "'b DamageDealtLog"
  proof -
    from DpsLog_fromLogs_main [of "[d]"] obtain out where out: "DpsLog_fromLogs [d] = Inr out"
      and dl: "map damageLogs out = groupDuplicateTimestamps [d]"
      and w: "sorted (map timestamp [d]) \<and> integerAmounts [d] \<longrightarrow>
         (\<forall>dl \<in> set out. dps dl =
            toDouble (sum_list (map amountValue (windowOf [d] (timestamp dl))) / 15))"
      and ts: "map timestamp out = map (\<lambda>g. timestamp (hd g)) (groupDuplicateTimestamps [d])"
      by (elim exE conjE) (rule that)
    have "length (map damageLogs out) = 1" unfolding dl by (simp add: groupDuplicateTimestamps_def)
    then obtain x where x: "out = [x]" by (cases out) simp_all
    have tx: "timestamp x = 0" using ts t unfolding x by (simp add: groupDuplicateTimestamps_def)
    have m15: "toDouble (- 15) = Num (- 15)" using toDouble_of_int [of "- 15"] by simp
    have "integerAmounts [d]" by (simp add: integerAmounts_def integerAmount_def amountValue_def a)
    then have "dps x = toDouble (sum_list (map amountValue (windowOf [d] 0)) / 15)"
      using w unfolding x by (simp add: tx)
    also have "windowOf [d] 0 = [d]"
      by (simp add: windowOf_def inWindow_def t DPS_WINDOW_def dsub_def dgt_def m15)
    also have "toDouble (sum_list (map amountValue [d]) / 15) = toDouble (of_int 10)"
      by (simp add: amountValue_def a)
    also have "\<dots> = Num (of_int 10)" by (rule toDouble_of_int) simp
    finally have "dps x = Num 10" by simp
    then show ?thesis using out x by simp
  qed
  have "DPS_WINDOW = Num 15" by (simp add: DPS_WINDOW_def)
  then show ?thesis using DpsLog_fromLogs_main [of ls] single by blast
qed

theorem DpsLog_fromLogs_window_witness:
  "list_all (\<lambda>d. isFinite (amount d)) ex_dps \<and> sorted (map timestamp ex_dps) \<and>
   integerAmounts ex_dps \<and>
   (\<exists>out. DpsLog_fromLogs ex_dps = Inr out \<and> map timestamp out = [0, 10, 16] \<and>
      map dps out = [Num 10, Num 16, Num 7]) \<and>
   (\<exists>dl. DpsLog_fromLogs [ex_damage 0 0 (Some (7::nat)) 150 False] = Inr [dl] \<and> dps dl = Num 10)"
proof -
  note inst = DpsLog_fromLogs_window [of ex_dps]
  from inst [THEN conjunct1] obtain out where out: "DpsLog_fromLogs ex_dps = Inr out"
    and ts: "map timestamp out = map (\<lambda>g. timestamp (hd g)) (groupDuplicateTimestamps ex_dps)"
    and w: "sorted (map timestamp ex_dps) \<and> integerAmounts ex_dps \<longrightarrow>
         (\<forall>dl \<in> set out. dps dl =
            toDouble (sum_list (map amountValue (windowOf ex_dps (timestamp dl))) / 15))"
    by (elim exE conjE) (rule that)
  have ts': "map timestamp out = [0, 10, 16]"
    unfolding ts by (simp add: ex_dps_def groupDuplicateTimestamps_def ex_defs)
  have fin: "list_all (\<lambda>d. isFinite (amount d)) ex_dps"
    by (simp add: ex_dps_def ex_defs isFinite_def)
  have srt: "sorted (map timestamp ex_dps)" by (simp add: ex_dps_def ex_defs)
  have ints: "integerAmounts ex_dps"
    by (simp add: ex_dps_def ex_defs integerAmounts_def integerAmount_def amountValue_def)
  from w srt ints have "\<forall>dl \<in> set out. dps dl =
      toDouble (sum_list (map amountValue (windowOf ex_dps (timestamp dl))) / 15)"
    by simp
  then have "map dps out =
      map (\<lambda>t. toDouble (sum_list (map amountValue (windowOf ex_dps t)) / 15)) (map timestamp out)"
    by (simp add: comp_def)
  also have "\<dots> = [Num 10, Num 16, Num 7]"
    unfolding ts' by (simp add: ex_dps_def ex_defs dps_eval dbl_eval)
  finally have d: "map dps out = [Num 10, Num 16, Num 7]" .
  from inst [THEN conjunct2, THEN conjunct2, rule_format,
      of "ex_damage 0 0 (Some (7::nat)) 150 False"]
  have single: "\<exists>dl. DpsLog_fromLogs [ex_damage 0 0 (Some (7::nat)) 150 False] = Inr [dl] \<and>
      dps dl = Num 10"
    by (simp add: ex_defs)
  have "\<exists>out. DpsLog_fromLogs ex_dps = Inr out \<and> map timestamp out = [0, 10, 16] \<and>
      map dps out = [Num 10, Num 16, Num 7]"
    using out ts' d by (intro exI [of _ out]) simp
  with fin srt ints single show ?thesis by (intro conjI)
qed

text \<open>
  Out of time order the eviction stops too early or too late: the third group, at time
  1, counts the event at time 30 and not the event at time 0. An infinite amount leaves
  NaN behind when it is evicted. A sum that is not exact leaves its error in the running
  total: after the large amount has been evicted the window holds the event of amount 1
  and the dps is 0.
\<close>

theorem DpsLog_fromLogs_window_counterexample:
  "map_sum id (map dps) (DpsLog_fromLogs ex_dps_unsorted) = Inr [Num 1, Num 2, Num 5, Num 9] \<and>
   map_sum id (map timestamp) (DpsLog_fromLogs ex_dps_unsorted) = Inr [0, 30, 1, 31] \<and>
   map (\<lambda>t. toDouble (sum_list (map amountValue (windowOf ex_dps_unsorted t)) / 15)) [0, 30, 1, 31]
     = [Num 1, Num 2, Num 4, Num 6] \<and>
   list_all (\<lambda>d. isFinite (amount d)) ex_dps_unsorted \<and> integerAmounts ex_dps_unsorted \<and>
   map_sum id (map dps) (DpsLog_fromLogs ex_dps_infinite) = Inr [Infinity, NaN] \<and>
   sorted (map timestamp ex_dps_infinite) \<and>
   map_sum id (\<lambda>out. map dps (drop 1 out)) (DpsLog_fromLogs ex_dps_rounding) = Inr [Num 0] \<and>
   map amountValue (windowOf ex_dps_rounding 20) = [1] \<and>
   sorted (map timestamp ex_dps_rounding) \<and>
   list_all (\<lambda>d. isFinite (amount d)) ex_dps_rounding"
  by (simp add: ex_dps_unsorted_def ex_dps_infinite_def ex_dps_rounding_def ex_defs dps_eval
      dbl_eval)

text \<open>
  An infinite amount can come from the parser itself: \<open>parseFloat\<close> of a one followed by
  309 zeros and \<open>.0\<close> is \<open>10 ^ 309\<close>, which is above every finite double, so the amount that
  \<open>DamageDealtLog.parse\<close> stores is \<open>Infinity\<close>.
\<close>

lemma decimalValue_zeros:
  "foldl (\<lambda>n c. 10 * n + digitValue c) m (replicate k CHR ''0'') = m * 10 ^ k"
  by (induction k arbitrary: m) (simp_all add: digitValue_def)

lemma takeWhile_zeros:
  "takeWhile isDigit (replicate k CHR ''0'' @ CHR ''.'' # r) = replicate k CHR ''0''"
  "dropWhile isDigit (replicate k CHR ''0'' @ CHR ''.'' # r) = CHR ''.'' # r"
  by (induction k) (simp_all add: isDigit_def)

lemma decimalValue_large:
  "decimalValue (CHR ''1'' # replicate k CHR ''0'') = 10 ^ k"
proof -
  have "decimalValue (CHR ''1'' # replicate k CHR ''0'') =
      foldl (\<lambda>n c. 10 * n + digitValue c) 1 (replicate k CHR ''0'')"
    by (simp add: decimalValue_def digitValue_def)
  thus ?thesis by (simp only: decimalValue_zeros)
qed

lemma parseFloat_large:
  "parseFloat (CHR ''1'' # replicate k CHR ''0'' @ ''.0'') = 10 ^ k"
proof -
  have d1: "isDigit CHR ''1''" and d0: "isDigit CHR ''0''"
    by (simp_all add: isDigit_def)
  have z: "decimalValue ''0'' = 0"
    by (simp add: decimalValue_def digitValue_def)
  show ?thesis
    using takeWhile_zeros [of k "''0''"]
    by (simp add: parseFloat_def parseUnsigned_def Let_def d1 d0 z decimalValue_large)
qed

lemma parseFloat_overflow:
  "toDouble (parseFloat (CHR ''1'' # replicate 309 CHR ''0'' @ ''.0'')) = Infinity"
  unfolding parseFloat_large by (simp add: dbl_eval)

section \<open>Properties of \<open>AuraUptimeLog.fromLogs\<close>\<close>

lemma findIndexE_first:
  "\<forall>x \<in> set pre. p x = Inr False \<Longrightarrow> p m = Inr True \<Longrightarrow>
     findIndexE p (pre @ m # post) = Inr (Some (length pre))"
  by (induction pre) auto

lemma findIndexE_none:
  "\<forall>x \<in> set xs. p x = Inr False \<Longrightarrow> findIndexE p xs = Inr None"
  by (induction xs) auto

lemma findIndexE_Some:
  "findIndexE p xs = Inr (Some i) \<Longrightarrow>
     i < length xs \<and> p (xs ! i) = Inr True \<and> (\<forall>j < i. p (xs ! j) = Inr False)"
proof (induction xs arbitrary: i)
  case Nil
  then show ?case by simp
next
  case (Cons x xs)
  show ?case
  proof (cases "p x")
    case (Inl e)
    then show ?thesis using Cons.prems by simp
  next
    case (Inr b)
    show ?thesis
    proof (cases b)
      case True
      then show ?thesis using Cons.prems Inr by auto
    next
      case False
      then obtain k where k: "findIndexE p xs = Inr (Some k)" "i = Suc k"
        using Cons.prems Inr by (auto split: sum.splits option.splits)
      from Cons.IH [OF k(1)] show ?thesis
        using k(2) Inr False by (auto simp: less_Suc_eq_0_disj)
    qed
  qed
qed

lemma findIndexE_None:
  "findIndexE p xs = Inr None \<Longrightarrow> \<forall>x \<in> set xs. p x = Inr False"
proof (induction xs)
  case Nil
  then show ?case by simp
next
  case (Cons x xs)
  then show ?case
    by (cases "p x") (auto split: sum.splits option.splits bool.splits if_splits)
qed

lemma auraStep_other_source:
  "source (params lg) = None \<or> (\<exists>s. source (params lg) = Some s \<and> \<not> Entity_equals s entity) \<Longrightarrow>
     auraStep ops entity st lg = Inr st"
  by (auto simp: auraStep_def)

lemma truncate_fields [simp]:
  "raw (SimLogParams.truncate l) = raw l"
  "logIndex (SimLogParams.truncate l) = logIndex l"
  "timestamp (SimLogParams.truncate l) = timestamp l"
  "source (SimLogParams.truncate l) = source l"
  "target (SimLogParams.truncate l) = target l"
  "actionId (SimLogParams.truncate l) = actionId l"
  "spellSchool (SimLogParams.truncate l) = spellSchool l"
  "threat (SimLogParams.truncate l) = threat l"
  by (simp_all add: SimLogParams.truncate_def)

lemma auraStep_gained:
  "source l = Some s \<Longrightarrow> Entity_equals s entity \<Longrightarrow> isGained l \<Longrightarrow>
     auraStep ops entity (unmatched, uptime) (AuraEvent l) =
       Inr (unmatched @ [\<lparr>gained = l, stacks = []\<rparr>], uptime)"
  by (simp add: auraStep_def)

lemma auraStep_close:
  assumes "source l = Some s" "Entity_equals s entity" "\<not> isGained l"
    and "\<forall>x \<in> set pre. matchesGained ops (actionId l) x = Inr False"
    and "matchesGained ops (actionId l) m = Inr True"
  shows "auraStep ops entity (pre @ m # post, uptime) (AuraEvent l) =
       Inr (pre @ post @ (if isRefreshed l then [\<lparr>gained = l, stacks = []\<rparr>] else []),
            uptime @ [closedBy l m])"
  using assms findIndexE_first [of pre "matchesGained ops (actionId l)" m post]
  by (simp add: auraStep_def)

lemma auraStep_stacks:
  assumes "source l = Some s" "Entity_equals s entity" "0 < newStacks l"
    and "\<forall>x \<in> set pre. matchesGained ops (actionId l) x = Inr False"
    and "matchesGained ops (actionId l) m = Inr True"
  shows "auraStep ops entity (pre @ m # post, uptime) (AuraStacksChange l) =
       Inr (pre @ m\<lparr>stacks := stacks m @ [l]\<rparr> # post, uptime)"
  using assms findIndexE_first [of pre "matchesGained ops (actionId l)" m post]
  by (simp add: auraStep_def)

lemma auraStep_unmatched_event:
  assumes "source l = Some s" "Entity_equals s entity" "\<not> isGained l" "actionId l = Some a"
    and "\<forall>x \<in> set unmatched. matchesGained ops (Some a) x = Inr False"
  shows "auraStep ops entity (unmatched, uptime) (AuraEvent l) = Inr (unmatched, uptime)"
  using assms findIndexE_none [of unmatched "matchesGained ops (Some a)"]
  by (simp add: auraStep_def warnUnmatched_def)

lemma auraStep_unmatched_stacks:
  assumes "source l = Some s" "Entity_equals s entity" "0 < newStacks l" "actionId l = Some a"
    and "\<forall>x \<in> set unmatched. matchesGained ops (Some a) x = Inr False"
  shows "auraStep ops entity (unmatched, uptime) (AuraStacksChange l) = Inr (unmatched, uptime)"
  using assms findIndexE_none [of unmatched "matchesGained ops (Some a)"]
  by (simp add: auraStep_def warnUnmatched_def)

lemma auraStep_ignored:
  "(\<forall>l. lg \<noteq> AuraEvent l) \<Longrightarrow> (\<forall>l. lg \<noteq> AuraStacksChange l \<or> newStacks l \<le> 0) \<Longrightarrow>
     auraStep ops entity st lg = Inr st"
  by (cases lg) (auto simp: auraStep_def split: option.splits)

lemma auraStep_cases:
  assumes "auraStep ops entity (un, up) lg = Inr (un', up')"
  shows "(un' = un \<and> up' = up) \<or>
         (\<exists>l. lg = AuraEvent l \<and> isGained l \<and> un' = un @ [\<lparr>gained = l, stacks = []\<rparr>] \<and> up' = up) \<or>
         (\<exists>l i. lg = AuraEvent l \<and> \<not> isGained l \<and> i < length un \<and>
            un' = (take i un @ drop (Suc i) un) @
                    (if isRefreshed l then [\<lparr>gained = l, stacks = []\<rparr>] else []) \<and>
            up' = up @ [closedBy l (un ! i)]) \<or>
         (\<exists>l i. lg = AuraStacksChange l \<and> i < length un \<and>
            un' = un[i := (un ! i)\<lparr>stacks := stacks (un ! i) @ [l]\<rparr>] \<and> up' = up)"
proof (cases "source (params lg)")
  case None
  then show ?thesis using assms by (simp add: auraStep_def)
next
  case (Some s)
  show ?thesis
  proof (cases "Entity_equals s entity")
    case False
    then show ?thesis using assms Some by (simp add: auraStep_def)
  next
    case True
    show ?thesis
    proof (cases lg)
      case (AuraEvent l)
      show ?thesis
      proof (cases "isGained l")
        case g: True
        then show ?thesis using assms Some True AuraEvent by (simp add: auraStep_def)
      next
        case g: False
        show ?thesis
        proof (cases "findIndexE (matchesGained ops (actionId l)) un")
          case (Inl e)
          then show ?thesis using assms Some True AuraEvent g by (simp add: auraStep_def)
        next
          case (Inr r)
          show ?thesis
          proof (cases r)
            case None
            then show ?thesis using assms Some True AuraEvent g Inr
              by (auto simp: auraStep_def warnUnmatched_def split: option.splits)
          next
            case (Some i)
            then have "i < length un" using findIndexE_Some Inr by blast
            then show ?thesis using assms \<open>source (params lg) = Some s\<close> True AuraEvent g Inr Some
              by (auto simp: auraStep_def)
          qed
        qed
      qed
    next
      case (AuraStacksChange l)
      show ?thesis
      proof (cases "newStacks l \<le> 0")
        case True
        then show ?thesis using assms AuraStacksChange by (auto simp: auraStep_def split: option.splits if_splits)
      next
        case ns: False
        show ?thesis
        proof (cases "findIndexE (matchesGained ops (actionId l)) un")
          case (Inl e)
          then show ?thesis using assms Some True AuraStacksChange ns by (simp add: auraStep_def)
        next
          case (Inr r)
          show ?thesis
          proof (cases r)
            case None
            then show ?thesis using assms Some True AuraStacksChange ns Inr
              by (auto simp: auraStep_def warnUnmatched_def split: option.splits)
          next
            case (Some i)
            then have "i < length un" using findIndexE_Some Inr by blast
            then show ?thesis using assms \<open>source (params lg) = Some s\<close> True AuraStacksChange ns Inr Some
              by (auto simp: auraStep_def)
          qed
        qed
      qed
    qed (use assms Some True in \<open>simp_all add: auraStep_def\<close>)
  qed
qed

lemma subseq_snoc_both: "subseq xs ys \<Longrightarrow> subseq (xs @ [x]) (ys @ [x])"
  by (simp add: list_emb_append_mono)

lemma subseq_remove_nth: "subseq (take i xs @ drop (Suc i) xs) xs"
proof (cases "i < length xs")
  case True
  have "subseq (take i xs @ drop (Suc i) xs) (take i xs @ (xs ! i) # drop (Suc i) xs)"
    by (intro list_emb_append_mono) auto
  then show ?thesis using True by (simp add: id_take_nth_drop [symmetric])
next
  case False
  then show ?thesis by simp
qed

lemma auraInv_step:
  assumes inv: "auraInv pre st" and step: "auraStep ops entity st x = Inr st'"
  shows "auraInv (pre @ [x]) st'"
proof -
  obtain un up where st: "st = (un, up)" by (cases st)
  obtain un' up' where st': "st' = (un', up')" by (cases st')
  from inv st obtain cs ms where
    sub: "subseq (map openedBy un) pre" and opn: "\<forall>m \<in> set un. opens (gained m)"
    and len: "length cs = length ms" and up: "up = map2 closedBy cs ms"
    and csub: "subseq (map AuraEvent cs) pre" and cng: "\<forall>c \<in> set cs. \<not> isGained c"
    and msin: "\<forall>m \<in> set ms. openedBy m \<in> set pre \<and> opens (gained m)"
    unfolding auraInv_def by auto
  have sub': "subseq (map openedBy un) (pre @ [x])" using sub by (rule subseq_rev_drop_many)
  have csub': "subseq (map AuraEvent cs) (pre @ [x])" using csub by (rule subseq_rev_drop_many)
  have msin': "\<forall>m \<in> set ms. openedBy m \<in> set (pre @ [x]) \<and> opens (gained m)" using msin by simp
  have same: "auraInv (pre @ [x]) (un2, up)"
    if "subseq (map openedBy un2) (pre @ [x])" "\<forall>m \<in> set un2. opens (gained m)" for un2
    unfolding auraInv_def using that len up csub' cng msin' by auto
  from auraStep_cases [OF step [unfolded st st']]
  consider (A) "un' = un" "up' = up"
    | (B) l where "x = AuraEvent l" "isGained l" "un' = un @ [\<lparr>gained = l, stacks = []\<rparr>]" "up' = up"
    | (C) l i where "x = AuraEvent l" "\<not> isGained l" "i < length un"
        "un' = (take i un @ drop (Suc i) un) @
                    (if isRefreshed l then [\<lparr>gained = l, stacks = []\<rparr>] else [])"
        "up' = up @ [closedBy l (un ! i)]"
    | (D) l i where "x = AuraStacksChange l" "i < length un"
        "un' = un[i := (un ! i)\<lparr>stacks := stacks (un ! i) @ [l]\<rparr>]" "up' = up"
    by blast
  then show ?thesis
  proof cases
    case A
    then show ?thesis unfolding st' using same [OF sub' opn] by simp
  next
    case B
    have "subseq (map openedBy un') (pre @ [x])"
      using subseq_snoc_both [OF sub, of x] B by (simp add: openedBy_def)
    moreover have "\<forall>m \<in> set un'. opens (gained m)" using opn B by (simp add: opens_def)
    ultimately show ?thesis unfolding st' using same B by simp
  next
    case C
    let ?rm = "take i un @ drop (Suc i) un"
    have "subseq (map openedBy ?rm) (map openedBy un)"
      by (rule subseq_map) (rule subseq_remove_nth)
    then have rm: "subseq (map openedBy ?rm) pre"
      using sub by (rule subseq_order.order_trans)
    have s1: "subseq (map openedBy un') (pre @ [x])"
    proof (cases "isRefreshed l")
      case True
      then show ?thesis using subseq_snoc_both [OF rm, of x] C by (simp add: openedBy_def)
    next
      case False
      then show ?thesis using subseq_rev_drop_many [OF rm, of "[x]"] C by simp
    qed
    have "set ?rm \<subseteq> set un"
      using set_take_subset [of i un] set_drop_subset [of "Suc i" un] by auto
    then have s2: "\<forall>m \<in> set un'. opens (gained m)" using opn C by (auto simp: opens_def)
    have mi: "un ! i \<in> set un" using C by simp
    then have "openedBy (un ! i) \<in> set (map openedBy un)" by simp
    then have "openedBy (un ! i) \<in> set pre"
      using list_emb_set [OF sub, of "openedBy (un ! i)"] by auto
    then have m3: "\<forall>m \<in> set (ms @ [un ! i]). openedBy m \<in> set (pre @ [x]) \<and> opens (gained m)"
      using msin opn mi by auto
    have c3: "subseq (map AuraEvent (cs @ [l])) (pre @ [x])"
      using subseq_snoc_both [OF csub, of x] C by simp
    have u3: "up' = map2 closedBy (cs @ [l]) (ms @ [un ! i])"
      using C up len by simp
    have l3: "length (cs @ [l]) = length (ms @ [un ! i])" using len by simp
    have g3: "\<forall>c \<in> set (cs @ [l]). \<not> isGained c" using cng C by simp
    have "length (cs @ [l]) = length (ms @ [un ! i]) \<and>
        up' = map2 closedBy (cs @ [l]) (ms @ [un ! i]) \<and>
        subseq (map AuraEvent (cs @ [l])) (pre @ [x]) \<and>
        (\<forall>c \<in> set (cs @ [l]). \<not> isGained c) \<and>
        (\<forall>m \<in> set (ms @ [un ! i]). openedBy m \<in> set (pre @ [x]) \<and> opens (gained m))"
      using l3 u3 c3 g3 m3 by (intro conjI)
    then have "\<exists>cs ms. length cs = length ms \<and> up' = map2 closedBy cs ms \<and>
        subseq (map AuraEvent cs) (pre @ [x]) \<and>
        (\<forall>c \<in> set cs. \<not> isGained c) \<and>
        (\<forall>m \<in> set ms. openedBy m \<in> set (pre @ [x]) \<and> opens (gained m))"
      by (intro exI)
    then show ?thesis unfolding st' auraInv_def using s1 s2 by simp
  next
    case D
    have "map openedBy un' = map openedBy un"
      using D by (simp add: map_update openedBy_def list_update_same_conv)
    then have s1: "subseq (map openedBy un') (pre @ [x])" using sub' by simp
    have "\<forall>m \<in> set un'. opens (gained m)"
    proof
      fix m assume "m \<in> set un'"
      then have "m \<in> insert ((un ! i)\<lparr>stacks := stacks (un ! i) @ [l]\<rparr>) (set un)"
        using D set_update_subset_insert by fastforce
      then show "opens (gained m)" using opn D by auto
    qed
    then show ?thesis unfolding st' using same [OF s1] D by simp
  qed
qed

lemma foldE_invariant:
  assumes "P pre s" "foldE f s xs = Inr s'"
    and "\<And>pre s x s'. P pre s \<Longrightarrow> f s x = Inr s' \<Longrightarrow> P (pre @ [x]) s'"
  shows "P (pre @ xs) s'"
  using assms(1,2)
proof (induction xs arbitrary: pre s)
  case Nil
  then show ?case by simp
next
  case (Cons x xs)
  then obtain s1 where s1: "f s x = Inr s1" "foldE f s1 xs = Inr s'"
    by (auto split: sum.splits)
  have "P (pre @ [x]) s1" using Cons.prems(1) s1(1) by (rule assms(3))
  from Cons.IH [OF this s1(2)] show ?case by simp
qed

lemma auraInv_final:
  assumes "foldE (auraStep ops entity) ([], []) ls = Inr st"
  shows "auraInv ls st"
proof -
  have "auraInv [] ([], [])"
    unfolding auraInv_def by (intro conjI exI [of _ "[]"]) simp_all
  then have "auraInv ([] @ ls) st"
    using assms by (rule foldE_invariant) (rule auraInv_step)
  then show ?thesis by simp
qed


lemma closedBy_fields [simp]:
  "raw (closedBy l m) = raw l"
  "logIndex (closedBy l m) = logIndex (gained m)"
  "timestamp (closedBy l m) = timestamp (gained m)"
  "source (closedBy l m) = source l"
  "target (closedBy l m) = target l"
  "actionId (closedBy l m) = actionId (gained m)"
  "spellSchool (closedBy l m) = spellSchool l"
  "threat (closedBy l m) = threat (gained m)"
  "gainedAt (closedBy l m) = timestamp (gained m)"
  "fadedAt (closedBy l m) = timestamp l"
  "stacksChange (closedBy l m) = stacks m"
  by (simp_all add: closedBy_def AuraUptimeLog_new_def)

lemma closedAtEnd_fields [simp]:
  "raw (closedAtEnd d m) = raw (gained m)"
  "logIndex (closedAtEnd d m) = logIndex (gained m)"
  "timestamp (closedAtEnd d m) = timestamp (gained m)"
  "source (closedAtEnd d m) = source (gained m)"
  "target (closedAtEnd d m) = target (gained m)"
  "actionId (closedAtEnd d m) = actionId (gained m)"
  "spellSchool (closedAtEnd d m) = spellSchool (gained m)"
  "threat (closedAtEnd d m) = threat (gained m)"
  "gainedAt (closedAtEnd d m) = timestamp (gained m)"
  "fadedAt (closedAtEnd d m) = d"
  "stacksChange (closedAtEnd d m) = stacks m"
  by (simp_all add: closedAtEnd_def AuraUptimeLog_new_def)

lemma uptimeLogs_unsorted_Inr:
  "uptimeLogs_unsorted ops ls entity dur = Inr pushed \<longleftrightarrow>
     (\<exists>st. foldE (auraStep ops entity) ([], []) ls = Inr st \<and>
           pushed = snd st @ map (closedAtEnd dur) (fst st))"
  by (auto simp: uptimeLogs_unsorted_def split: sum.splits)

lemma AuraUptimeLog_fromLogs_Inr:
  "AuraUptimeLog_fromLogs ops ls entity dur = Inr out \<longleftrightarrow>
     (\<exists>pushed. uptimeLogs_unsorted ops ls entity dur = Inr pushed \<and>
           out = sort_key gainedAt pushed)"
  by (auto simp: AuraUptimeLog_fromLogs_def split: sum.splits)


lemma matchesGained_Some:
  "actionId (gained m) = Some g \<Longrightarrow>
     matchesGained ops (Some a) m = Inr (equals ops g a \<or> equalsIgnoringTag ops g a)"
  by (simp add: matchesGained_def)

lemma fromLogs_gain_stacks_fade:
  assumes g: "source g = Some s1" "Entity_equals s1 entity" "isGained g" "actionId g = Some a"
    and sc: "source sc = Some s2" "Entity_equals s2 entity" "0 < newStacks sc" "actionId sc = Some a"
    and f: "source f = Some s3" "Entity_equals s3 entity" "\<not> isGained f" "\<not> isRefreshed f"
      "actionId f = Some a"
    and refl: "equals ops a a"
  shows "AuraUptimeLog_fromLogs ops [AuraEvent g, AuraStacksChange sc, AuraEvent f] entity dur
      = Inr [closedBy f \<lparr>gained = g, stacks = [sc]\<rparr>]"
proof -
  let ?m = "\<lparr>gained = g, stacks = []\<rparr>"
  have m: "matchesGained ops (Some a) m = Inr True" if "gained m = g" for m :: "'a UnmatchedGained"
    using that g(4) refl by (simp add: matchesGained_def)
  have 1: "auraStep ops entity ([], []) (AuraEvent g) = Inr ([?m], [])"
    using auraStep_gained [OF g(1,2,3), of ops "[]" "[]"] by simp
  let ?m2 = "\<lparr>gained = g, stacks = [sc]\<rparr>"
  have 2: "auraStep ops entity ([?m], []) (AuraStacksChange sc) = Inr ([?m2], [])"
    using auraStep_stacks [OF sc(1,2,3), of "[]" ops ?m "[]" "[]"] m [of ?m] sc(4) by simp
  have 3: "auraStep ops entity ([?m2], []) (AuraEvent f) = Inr ([], [closedBy f ?m2])"
    using auraStep_close [OF f(1,2,3), of "[]" ops ?m2 "[]" "[]"] m [of ?m2] f(4,5) by simp
  show ?thesis
    by (simp add: AuraUptimeLog_fromLogs_def uptimeLogs_unsorted_def 1 2 3)
qed

lemma fromLogs_gain_only:
  assumes g: "source g = Some s1" "Entity_equals s1 entity" "isGained g"
  shows "AuraUptimeLog_fromLogs ops [AuraEvent g] entity dur
      = Inr [closedAtEnd dur \<lparr>gained = g, stacks = []\<rparr>]"
  using auraStep_gained [OF g, of ops "[]" "[]"]
  by (simp add: AuraUptimeLog_fromLogs_def uptimeLogs_unsorted_def)

text \<open>
  Claim C3. Only events whose source equals the entity change the lists. A gained event
  opens an entry at the end of the list of open entries, which stands in the order of the
  opening events. A fade or refresh closes the first open entry whose identifier equals
  the event's own exactly or ignoring the tag, the oldest one, into an uptime log that
  fades at the event's timestamp, and a refresh opens a new entry for itself; a stacks
  change to a positive count is appended to the first such entry. An event that matches
  no open entry leaves both lists as they are. After the loop every open entry is closed
  at the encounter duration. Gain at 1, stacks change from 0 to 2 at 3 and fade at 5 give
  one uptime log from 1 to 5 with the one stacks change; a gain alone with duration 300
  gives a log that fades at 300.
\<close>

theorem AuraUptimeLog_fromLogs_matching:
  "(\<forall>st lg. source (params lg) = None \<or>
        (\<exists>s. source (params lg) = Some s \<and> \<not> Entity_equals s entity) \<longrightarrow>
      auraStep ops entity st lg = Inr st) \<and>
   (\<forall>l s un up. source l = Some s \<and> Entity_equals s entity \<and> isGained l \<longrightarrow>
      auraStep ops entity (un, up) (AuraEvent l) = Inr (un @ [\<lparr>gained = l, stacks = []\<rparr>], up)) \<and>
   (\<forall>l s pre m post up.
      source l = Some s \<and> Entity_equals s entity \<and> \<not> isGained l \<and>
      (\<forall>x \<in> set pre. matchesGained ops (actionId l) x = Inr False) \<and>
      matchesGained ops (actionId l) m = Inr True \<longrightarrow>
        auraStep ops entity (pre @ m # post, up) (AuraEvent l) =
          Inr (pre @ post @ (if isRefreshed l then [\<lparr>gained = l, stacks = []\<rparr>] else []),
               up @ [closedBy l m]) \<and>
        gainedAt (closedBy l m) = timestamp (gained m) \<and>
        fadedAt (closedBy l m) = timestamp l \<and>
        stacksChange (closedBy l m) = stacks m) \<and>
   (\<forall>l s pre m post up.
      source l = Some s \<and> Entity_equals s entity \<and> 0 < newStacks l \<and>
      (\<forall>x \<in> set pre. matchesGained ops (actionId l) x = Inr False) \<and>
      matchesGained ops (actionId l) m = Inr True \<longrightarrow>
        auraStep ops entity (pre @ m # post, up) (AuraStacksChange l) =
          Inr (pre @ m\<lparr>stacks := stacks m @ [l]\<rparr> # post, up)) \<and>
   (\<forall>l s a un up.
      source l = Some s \<and> Entity_equals s entity \<and> actionId l = Some a \<and>
      (\<forall>x \<in> set un. matchesGained ops (Some a) x = Inr False) \<longrightarrow>
        (\<not> isGained l \<longrightarrow> auraStep ops entity (un, up) (AuraEvent l) = Inr (un, up))) \<and>
   (\<forall>l s a un up.
      source l = Some s \<and> Entity_equals s entity \<and> actionId l = Some a \<and>
      (\<forall>x \<in> set un. matchesGained ops (Some a) x = Inr False) \<longrightarrow>
        auraStep ops entity (un, up) (AuraStacksChange l) = Inr (un, up)) \<and>
   (\<forall>a g m. actionId (gained m) = Some g \<longrightarrow>
      matchesGained ops (Some a) m = Inr (equals ops g a \<or> equalsIgnoringTag ops g a)) \<and>
   (\<forall>ls st. foldE (auraStep ops entity) ([], []) ls = Inr st \<longrightarrow>
      subseq (map openedBy (fst st)) ls \<and>
      uptimeLogs_unsorted ops ls entity dur = Inr (snd st @ map (closedAtEnd dur) (fst st)) \<and>
      (\<forall>m \<in> set (fst st). fadedAt (closedAtEnd dur m) = dur \<and>
         gainedAt (closedAtEnd dur m) = timestamp (gained m) \<and>
         stacksChange (closedAtEnd dur m) = stacks m)) \<and>
   (\<forall>g sc f a s1 s2 s3.
      source g = Some s1 \<and> Entity_equals s1 entity \<and> isGained g \<and> actionId g = Some a \<and>
      timestamp g = 1 \<and>
      source sc = Some s2 \<and> Entity_equals s2 entity \<and> oldStacks sc = 0 \<and> newStacks sc = 2 \<and>
      actionId sc = Some a \<and> timestamp sc = 3 \<and>
      source f = Some s3 \<and> Entity_equals s3 entity \<and> \<not> isGained f \<and> isFaded f \<and>
      \<not> isRefreshed f \<and> actionId f = Some a \<and> timestamp f = 5 \<and> equals ops a a \<longrightarrow>
        (\<exists>u. AuraUptimeLog_fromLogs ops [AuraEvent g, AuraStacksChange sc, AuraEvent f] entity dur
               = Inr [u] \<and>
             gainedAt u = 1 \<and> fadedAt u = 5 \<and> stacksChange u = [sc])) \<and>
   (\<forall>g s1. source g = Some s1 \<and> Entity_equals s1 entity \<and> isGained g \<longrightarrow>
      (\<exists>u. AuraUptimeLog_fromLogs ops [AuraEvent g] entity 300 = Inr [u] \<and> fadedAt u = 300))"
proof -
  have c1: "\<forall>st lg. source (params lg) = None \<or>
        (\<exists>s. source (params lg) = Some s \<and> \<not> Entity_equals s entity) \<longrightarrow>
      auraStep ops entity st lg = Inr st"
    by (intro allI impI) (rule auraStep_other_source)
  have c2: "\<forall>l s un up. source l = Some s \<and> Entity_equals s entity \<and> isGained l \<longrightarrow>
      auraStep ops entity (un, up) (AuraEvent l) = Inr (un @ [\<lparr>gained = l, stacks = []\<rparr>], up)"
    by (intro allI impI, elim conjE, rule auraStep_gained; assumption)
  have c3: "\<forall>l s pre m post up.
      source l = Some s \<and> Entity_equals s entity \<and> \<not> isGained l \<and>
      (\<forall>x \<in> set pre. matchesGained ops (actionId l) x = Inr False) \<and>
      matchesGained ops (actionId l) m = Inr True \<longrightarrow>
        auraStep ops entity (pre @ m # post, up) (AuraEvent l) =
          Inr (pre @ post @ (if isRefreshed l then [\<lparr>gained = l, stacks = []\<rparr>] else []),
               up @ [closedBy l m]) \<and>
        gainedAt (closedBy l m) = timestamp (gained m) \<and>
        fadedAt (closedBy l m) = timestamp l \<and>
        stacksChange (closedBy l m) = stacks m"
  proof (intro allI impI, elim conjE)
    fix l :: "'a AuraEventLog" and s pre m post up
    assume "source l = Some s" "Entity_equals s entity" "\<not> isGained l"
      "\<forall>x \<in> set pre. matchesGained ops (actionId l) x = Inr False"
      "matchesGained ops (actionId l) m = Inr True"
    then have "auraStep ops entity (pre @ m # post, up) (AuraEvent l) =
          Inr (pre @ post @ (if isRefreshed l then [\<lparr>gained = l, stacks = []\<rparr>] else []),
               up @ [closedBy l m])"
      by (rule auraStep_close)
    then show "auraStep ops entity (pre @ m # post, up) (AuraEvent l) =
          Inr (pre @ post @ (if isRefreshed l then [\<lparr>gained = l, stacks = []\<rparr>] else []),
               up @ [closedBy l m]) \<and>
        gainedAt (closedBy l m) = timestamp (gained m) \<and>
        fadedAt (closedBy l m) = timestamp l \<and>
        stacksChange (closedBy l m) = stacks m"
      by simp
  qed
  have c4: "\<forall>l s pre m post up.
      source l = Some s \<and> Entity_equals s entity \<and> 0 < newStacks l \<and>
      (\<forall>x \<in> set pre. matchesGained ops (actionId l) x = Inr False) \<and>
      matchesGained ops (actionId l) m = Inr True \<longrightarrow>
        auraStep ops entity (pre @ m # post, up) (AuraStacksChange l) =
          Inr (pre @ m\<lparr>stacks := stacks m @ [l]\<rparr> # post, up)"
    by (intro allI impI, elim conjE, rule auraStep_stacks; assumption)
  have c5: "\<forall>l s a un up.
      source l = Some s \<and> Entity_equals s entity \<and> actionId l = Some a \<and>
      (\<forall>x \<in> set un. matchesGained ops (Some a) x = Inr False) \<longrightarrow>
        (\<not> isGained l \<longrightarrow> auraStep ops entity (un, up) (AuraEvent l) = Inr (un, up))"
    by (intro allI impI, elim conjE, rule auraStep_unmatched_event; assumption)
  have c6: "\<forall>l s a un up.
      source l = Some s \<and> Entity_equals s entity \<and> actionId l = Some a \<and>
      (\<forall>x \<in> set un. matchesGained ops (Some a) x = Inr False) \<longrightarrow>
        auraStep ops entity (un, up) (AuraStacksChange l) = Inr (un, up)"
  proof (intro allI impI)
    fix l :: "'a AuraStacksChangeLog" and s a un up
    assume h: "source l = Some s \<and> Entity_equals s entity \<and> actionId l = Some a \<and>
      (\<forall>x \<in> set un. matchesGained ops (Some a) x = Inr False)"
    show "auraStep ops entity (un, up) (AuraStacksChange l) = Inr (un, up)"
    proof (cases "0 < newStacks l")
      case True
      then show ?thesis
        using h auraStep_unmatched_stacks [of l s entity a un ops up] by simp
    next
      case False
      then show ?thesis using h by (simp add: auraStep_def)
    qed
  qed
  have c7: "\<forall>a g m. actionId (gained m) = Some g \<longrightarrow>
      matchesGained ops (Some a) m = Inr (equals ops g a \<or> equalsIgnoringTag ops g a)"
    by (intro allI impI) (rule matchesGained_Some)
  have c8: "\<forall>ls st. foldE (auraStep ops entity) ([], []) ls = Inr st \<longrightarrow>
      subseq (map openedBy (fst st)) ls \<and>
      uptimeLogs_unsorted ops ls entity dur = Inr (snd st @ map (closedAtEnd dur) (fst st)) \<and>
      (\<forall>m \<in> set (fst st). fadedAt (closedAtEnd dur m) = dur \<and>
         gainedAt (closedAtEnd dur m) = timestamp (gained m) \<and>
         stacksChange (closedAtEnd dur m) = stacks m)"
  proof (intro allI impI)
    fix ls st
    assume h: "foldE (auraStep ops entity) ([], []) ls = Inr st"
    have "subseq (map openedBy (fst st)) ls"
      using auraInv_final [OF h] by (simp add: auraInv_def)
    moreover have "uptimeLogs_unsorted ops ls entity dur = Inr (snd st @ map (closedAtEnd dur) (fst st))"
      using h by (simp add: uptimeLogs_unsorted_def)
    ultimately show "subseq (map openedBy (fst st)) ls \<and>
      uptimeLogs_unsorted ops ls entity dur = Inr (snd st @ map (closedAtEnd dur) (fst st)) \<and>
      (\<forall>m \<in> set (fst st). fadedAt (closedAtEnd dur m) = dur \<and>
         gainedAt (closedAtEnd dur m) = timestamp (gained m) \<and>
         stacksChange (closedAtEnd dur m) = stacks m)"
      by simp
  qed
  have c9: "\<forall>g sc f a s1 s2 s3.
      source g = Some s1 \<and> Entity_equals s1 entity \<and> isGained g \<and> actionId g = Some a \<and>
      timestamp g = 1 \<and>
      source sc = Some s2 \<and> Entity_equals s2 entity \<and> oldStacks sc = 0 \<and> newStacks sc = 2 \<and>
      actionId sc = Some a \<and> timestamp sc = 3 \<and>
      source f = Some s3 \<and> Entity_equals s3 entity \<and> \<not> isGained f \<and> isFaded f \<and>
      \<not> isRefreshed f \<and> actionId f = Some a \<and> timestamp f = 5 \<and> equals ops a a \<longrightarrow>
        (\<exists>u. AuraUptimeLog_fromLogs ops [AuraEvent g, AuraStacksChange sc, AuraEvent f] entity dur
               = Inr [u] \<and>
             gainedAt u = 1 \<and> fadedAt u = 5 \<and> stacksChange u = [sc])"
  proof (intro allI impI)
    fix g f :: "'a AuraEventLog" and sc :: "'a AuraStacksChangeLog" and a s1 s2 s3
    assume h: "source g = Some s1 \<and> Entity_equals s1 entity \<and> isGained g \<and> actionId g = Some a \<and>
      timestamp g = 1 \<and>
      source sc = Some s2 \<and> Entity_equals s2 entity \<and> oldStacks sc = 0 \<and> newStacks sc = 2 \<and>
      actionId sc = Some a \<and> timestamp sc = 3 \<and>
      source f = Some s3 \<and> Entity_equals s3 entity \<and> \<not> isGained f \<and> isFaded f \<and>
      \<not> isRefreshed f \<and> actionId f = Some a \<and> timestamp f = 5 \<and> equals ops a a"
    then have "AuraUptimeLog_fromLogs ops [AuraEvent g, AuraStacksChange sc, AuraEvent f] entity dur
      = Inr [closedBy f \<lparr>gained = g, stacks = [sc]\<rparr>]"
      by (intro fromLogs_gain_stacks_fade [of g s1 entity a sc s2 f s3]) simp_all
    then show "\<exists>u. AuraUptimeLog_fromLogs ops [AuraEvent g, AuraStacksChange sc, AuraEvent f] entity dur
               = Inr [u] \<and>
             gainedAt u = 1 \<and> fadedAt u = 5 \<and> stacksChange u = [sc]"
      using h by simp
  qed
  have c10: "\<forall>g s1. source g = Some s1 \<and> Entity_equals s1 entity \<and> isGained g \<longrightarrow>
      (\<exists>u. AuraUptimeLog_fromLogs ops [AuraEvent g] entity 300 = Inr [u] \<and> fadedAt u = 300)"
  proof (intro allI impI, elim conjE)
    fix g :: "'a AuraEventLog" and s1
    assume "source g = Some s1" "Entity_equals s1 entity" "isGained g"
    then have "AuraUptimeLog_fromLogs ops [AuraEvent g] entity 300
      = Inr [closedAtEnd 300 \<lparr>gained = g, stacks = []\<rparr>]"
      by (rule fromLogs_gain_only)
    then show "\<exists>u. AuraUptimeLog_fromLogs ops [AuraEvent g] entity 300 = Inr [u] \<and> fadedAt u = 300"
      by simp
  qed
  show ?thesis
    by (intro conjI) (fact c1 c2 c3 c4 c5 c6 c7 c8 c9 c10)+
qed

lemmas ex_aura_defs = ex_gainA_def ex_gainB_def ex_fadeB_def ex_stacksA_def ex_fadeA_def ex_gainA2_def

theorem AuraUptimeLog_fromLogs_matching_witness:
  "(\<exists>u. AuraUptimeLog_fromLogs ex_ops
          [AuraEvent ex_gainA, AuraStacksChange ex_stacksA, AuraEvent ex_fadeA] ex_player 300 = Inr [u] \<and>
        gainedAt u = 1 \<and> fadedAt u = 5 \<and> stacksChange u = [ex_stacksA]) \<and>
   (\<exists>u. AuraUptimeLog_fromLogs ex_ops [AuraEvent ex_gainA] ex_player 300 = Inr [u] \<and>
        fadedAt u = 300) \<and>
   auraStep ex_ops ex_player
      ([\<lparr>gained = ex_gainA, stacks = []\<rparr>, \<lparr>gained = ex_gainA2, stacks = []\<rparr>], [])
      (AuraEvent ex_fadeA)
     = Inr ([\<lparr>gained = ex_gainA2, stacks = []\<rparr>],
            [closedBy ex_fadeA \<lparr>gained = ex_gainA, stacks = []\<rparr>])"
proof -
  note T = AuraUptimeLog_fromLogs_matching [where entity = ex_player and ops = ex_ops and dur = 300]
  note r2 = T [THEN conjunct2]
  note r3 = r2 [THEN conjunct2]
  note c3 = r3 [THEN conjunct1, rule_format]
  note r4 = r3 [THEN conjunct2]
  note r5 = r4 [THEN conjunct2]
  note r6 = r5 [THEN conjunct2]
  note r7 = r6 [THEN conjunct2]
  note r8 = r7 [THEN conjunct2]
  note r9 = r8 [THEN conjunct2]
  note c9 = r9 [THEN conjunct1, rule_format]
  note c10 = r9 [THEN conjunct2, rule_format]
  have e1: "\<exists>u. AuraUptimeLog_fromLogs ex_ops
          [AuraEvent ex_gainA, AuraStacksChange ex_stacksA, AuraEvent ex_fadeA] ex_player 300 = Inr [u] \<and>
        gainedAt u = 1 \<and> fadedAt u = 5 \<and> stacksChange u = [ex_stacksA]"
    by (rule c9 [of ex_gainA ex_player "(5, 0)" ex_stacksA ex_player ex_fadeA ex_player])
      (simp add: ex_aura_defs ex_defs ex_ops_def Entity_equals_def)
  have e2: "\<exists>u. AuraUptimeLog_fromLogs ex_ops [AuraEvent ex_gainA] ex_player 300 = Inr [u] \<and>
        fadedAt u = 300"
    by (rule c10 [of ex_gainA ex_player])
      (simp add: ex_aura_defs ex_defs Entity_equals_def)
  have e3: "auraStep ex_ops ex_player
      ([] @ \<lparr>gained = ex_gainA, stacks = []\<rparr> # [\<lparr>gained = ex_gainA2, stacks = []\<rparr>], [])
      (AuraEvent ex_fadeA)
     = Inr ([] @ [\<lparr>gained = ex_gainA2, stacks = []\<rparr>] @
              (if isRefreshed ex_fadeA then [\<lparr>gained = ex_fadeA, stacks = []\<rparr>] else []),
            [] @ [closedBy ex_fadeA \<lparr>gained = ex_gainA, stacks = []\<rparr>])"
    by (rule c3 [of ex_fadeA ex_player "[]" "\<lparr>gained = ex_gainA, stacks = []\<rparr>", THEN conjunct1])
      (simp add: ex_aura_defs ex_defs ex_ops_def Entity_equals_def matchesGained_def)
  have e3b: "auraStep ex_ops ex_player
      ([\<lparr>gained = ex_gainA, stacks = []\<rparr>, \<lparr>gained = ex_gainA2, stacks = []\<rparr>], [])
      (AuraEvent ex_fadeA)
     = Inr ([\<lparr>gained = ex_gainA2, stacks = []\<rparr>],
            [closedBy ex_fadeA \<lparr>gained = ex_gainA, stacks = []\<rparr>])"
    using e3 by (simp add: ex_aura_defs ex_defs)
  show ?thesis using e1 e2 e3b by (intro conjI)
qed

text \<open>
  Claim C4, amended. Every uptime log takes \<open>logIndex\<close>, \<open>timestamp\<close>, \<open>actionId\<close> and
  \<open>threat\<close> from the event that opened its entry, a gained event or a refresh. A log
  closed at the end of input takes \<open>raw\<close>, \<open>source\<close>, \<open>target\<close> and \<open>spellSchool\<close> from
  that event too; a log closed by a fade or refresh takes these four from the closing
  event.
\<close>

theorem AuraUptimeLog_fromLogs_header:
  assumes "AuraUptimeLog_fromLogs ops ls entity dur = Inr out" "u \<in> set out"
  shows "\<exists>g. AuraEvent g \<in> set ls \<and> (isGained g \<or> isRefreshed g) \<and>
           logIndex u = logIndex g \<and> timestamp u = timestamp g \<and> gainedAt u = timestamp g \<and>
           actionId u = actionId g \<and> threat u = threat g \<and>
           (fadedAt u = dur \<and> raw u = raw g \<and> source u = source g \<and> target u = target g \<and>
              spellSchool u = spellSchool g \<or>
            (\<exists>c. AuraEvent c \<in> set ls \<and> \<not> isGained c \<and> fadedAt u = timestamp c \<and>
                 raw u = raw c \<and> source u = source c \<and> target u = target c \<and>
                 spellSchool u = spellSchool c))"
proof -
  from assms(1) obtain st where st: "foldE (auraStep ops entity) ([], []) ls = Inr st"
    and out: "out = sort_key gainedAt (snd st @ map (closedAtEnd dur) (fst st))"
    by (auto simp: AuraUptimeLog_fromLogs_Inr uptimeLogs_unsorted_Inr)
  from auraInv_final [OF st] obtain cs ms where
    sub: "subseq (map openedBy (fst st)) ls" and opn: "\<forall>m \<in> set (fst st). opens (gained m)"
    and len: "length cs = length ms" and up: "snd st = map2 closedBy cs ms"
    and csub: "subseq (map AuraEvent cs) ls" and cng: "\<forall>c \<in> set cs. \<not> isGained c"
    and msin: "\<forall>m \<in> set ms. openedBy m \<in> set ls \<and> opens (gained m)"
    unfolding auraInv_def by auto
  from assms(2) out consider (closed) "u \<in> set (snd st)" | (atEnd) "u \<in> closedAtEnd dur ` set (fst st)"
    by auto
  then show ?thesis
  proof cases
    case closed
    then obtain c m where cm: "(c, m) \<in> set (zip cs ms)" "u = closedBy c m"
      unfolding up by auto
    then have c: "c \<in> set cs" and m: "m \<in> set ms" by (auto dest: set_zip_leftD set_zip_rightD)
    have "AuraEvent c \<in> set (map AuraEvent cs)" using c by simp
    then have cin: "AuraEvent c \<in> set ls" using list_emb_set [OF csub, of "AuraEvent c"] by auto
    have gin: "AuraEvent (gained m) \<in> set ls" "isGained (gained m) \<or> isRefreshed (gained m)"
      using msin m by (auto simp: openedBy_def opens_def)
    have "\<exists>c. AuraEvent c \<in> set ls \<and> \<not> isGained c \<and> fadedAt u = timestamp c \<and>
                 raw u = raw c \<and> source u = source c \<and> target u = target c \<and>
                 spellSchool u = spellSchool c"
      using cin cng c cm(2) by (intro exI [of _ c]) simp
    then show ?thesis using gin cm(2) by (intro exI [of _ "gained m"]) simp
  next
    case atEnd
    then obtain m where m: "m \<in> set (fst st)" "u = closedAtEnd dur m" by auto
    have "openedBy m \<in> set (map openedBy (fst st))" using m by simp
    then have "openedBy m \<in> set ls" using list_emb_set [OF sub, of "openedBy m"] by auto
    then have gin: "AuraEvent (gained m) \<in> set ls" by (simp add: openedBy_def)
    have "isGained (gained m) \<or> isRefreshed (gained m)" using opn m by (simp add: opens_def)
    then show ?thesis using gin m(2) by (intro exI [of _ "gained m"]) simp
  qed
qed


lemmas ex_aura_defs2 = ex_aura_defs ex_fadeA3_def

lemmas aura_eval = AuraUptimeLog_fromLogs_def uptimeLogs_unsorted_def auraStep_def
  matchesGained_def warnUnmatched_def closedBy_def closedAtEnd_def AuraUptimeLog_new_def
  Entity_equals_def SimLogParams.truncate_def ex_ops_def

theorem AuraUptimeLog_fromLogs_header_counterexample:
  "AuraUptimeLog_fromLogs ex_ops [AuraEvent ex_gainA, AuraEvent ex_fadeA] ex_player 300 =
     Inr [\<lparr> raw = ''[5.00] [Bob (#1)] Aura faded: A'', logIndex = 0, timestamp = 1,
            source = Some ex_player, target = None, actionId = Some (5, 0),
            spellSchool = None, threat = 0, gainedAt = 1, fadedAt = 5, stacksChange = [] \<rparr>] \<and>
   raw ex_gainA = ''[1.00] [Bob (#1)] Aura gained: A'' \<and>
   raw ex_fadeA = ''[5.00] [Bob (#1)] Aura faded: A''"
  by (simp add: aura_eval ex_aura_defs ex_defs)

theorem AuraUptimeLog_fromLogs_header_witness:
  "AuraUptimeLog_fromLogs ex_ops [AuraEvent ex_gainA, AuraEvent ex_fadeA] ex_player 300 =
     Inr [closedBy ex_fadeA \<lparr>gained = ex_gainA, stacks = []\<rparr>] \<and>
   (\<exists>g. AuraEvent g \<in> set [AuraEvent ex_gainA, AuraEvent ex_fadeA] \<and>
      logIndex (closedBy ex_fadeA \<lparr>gained = ex_gainA, stacks = []\<rparr>) = logIndex g \<and>
      actionId (closedBy ex_fadeA \<lparr>gained = ex_gainA, stacks = []\<rparr>) = actionId g \<and>
      (\<exists>c. AuraEvent c \<in> set [AuraEvent ex_gainA, AuraEvent ex_fadeA] \<and> \<not> isGained c \<and>
         raw (closedBy ex_fadeA \<lparr>gained = ex_gainA, stacks = []\<rparr>) = raw c))"
proof -
  let ?u = "closedBy ex_fadeA \<lparr>gained = ex_gainA, stacks = []\<rparr>"
  let ?ls = "[AuraEvent ex_gainA, AuraEvent ex_fadeA]"
  have ev: "AuraUptimeLog_fromLogs ex_ops ?ls ex_player 300 = Inr [?u]"
    by (simp add: aura_eval ex_aura_defs ex_defs)
  have "?u \<in> set [?u]" by simp
  from AuraUptimeLog_fromLogs_header [OF ev this]
  obtain g where g: "AuraEvent g \<in> set ?ls" "logIndex ?u = logIndex g" "actionId ?u = actionId g"
    and d: "fadedAt ?u = 300 \<and> raw ?u = raw g \<and> source ?u = source g \<and> target ?u = target g \<and>
              spellSchool ?u = spellSchool g \<or>
            (\<exists>c. AuraEvent c \<in> set ?ls \<and> \<not> isGained c \<and> fadedAt ?u = timestamp c \<and>
                 raw ?u = raw c \<and> source ?u = source c \<and> target ?u = target c \<and>
                 spellSchool ?u = spellSchool c)"
    by (elim exE conjE) (rule that)
  have "fadedAt ?u \<noteq> 300" by (simp add: ex_aura_defs ex_defs)
  then have "\<exists>c. AuraEvent c \<in> set ?ls \<and> \<not> isGained c \<and> raw ?u = raw c"
    using d by blast
  then show ?thesis using ev g by blast
qed

text \<open>
  What the sort does. The result is sorted by \<open>gainedAt\<close>; the sort is stable, so logs
  of equal \<open>gainedAt\<close> keep the order in which they were pushed: first the logs closed
  by a fade or refresh, in the input order of the closing events, then the logs of the
  entries still open at the end, in the input order of the events that opened them.
\<close>

lemma AuraUptimeLog_fromLogs_sorted:
  assumes "AuraUptimeLog_fromLogs ops ls entity dur = Inr out"
  shows "sorted (map gainedAt out) \<and>
         (\<exists>cs ms opn. length cs = length ms \<and>
            uptimeLogs_unsorted ops ls entity dur =
              Inr (map2 closedBy cs ms @ map (closedAtEnd dur) opn) \<and>
            subseq (map AuraEvent cs) ls \<and>
            subseq (map openedBy opn) ls \<and>
            length out = length (map2 closedBy cs ms @ map (closedAtEnd dur) opn) \<and>
            (\<forall>t. filter (\<lambda>u. gainedAt u = t) out =
                 filter (\<lambda>u. gainedAt u = t) (map2 closedBy cs ms @ map (closedAtEnd dur) opn)))"
proof -
  from assms obtain st where st: "foldE (auraStep ops entity) ([], []) ls = Inr st"
    and pushed: "uptimeLogs_unsorted ops ls entity dur = Inr (snd st @ map (closedAtEnd dur) (fst st))"
    and out: "out = sort_key gainedAt (snd st @ map (closedAtEnd dur) (fst st))"
    by (auto simp: AuraUptimeLog_fromLogs_Inr uptimeLogs_unsorted_Inr)
  from auraInv_final [OF st] obtain cs ms where
    sub: "subseq (map openedBy (fst st)) ls"
    and len: "length cs = length ms" and up: "snd st = map2 closedBy cs ms"
    and csub: "subseq (map AuraEvent cs) ls"
    unfolding auraInv_def by auto
  have srt: "sorted (map gainedAt out)" unfolding out by (rule sorted_sort_key)
  have stab: "\<forall>t. filter (\<lambda>u. gainedAt u = t) out =
      filter (\<lambda>u. gainedAt u = t) (map2 closedBy cs ms @ map (closedAtEnd dur) (fst st))"
    unfolding out up by (intro allI) (rule sort_key_stable)
  have ln: "length out = length (map2 closedBy cs ms @ map (closedAtEnd dur) (fst st))"
    unfolding out up by simp
  have "length cs = length ms \<and>
            uptimeLogs_unsorted ops ls entity dur =
              Inr (map2 closedBy cs ms @ map (closedAtEnd dur) (fst st)) \<and>
            subseq (map AuraEvent cs) ls \<and>
            subseq (map openedBy (fst st)) ls \<and>
            length out = length (map2 closedBy cs ms @ map (closedAtEnd dur) (fst st)) \<and>
            (\<forall>t. filter (\<lambda>u. gainedAt u = t) out =
                 filter (\<lambda>u. gainedAt u = t) (map2 closedBy cs ms @ map (closedAtEnd dur) (fst st)))"
    using len pushed [unfolded up] csub sub ln stab by (intro conjI)
  then have "\<exists>cs ms opn. length cs = length ms \<and>
            uptimeLogs_unsorted ops ls entity dur =
              Inr (map2 closedBy cs ms @ map (closedAtEnd dur) opn) \<and>
            subseq (map AuraEvent cs) ls \<and>
            subseq (map openedBy opn) ls \<and>
            length out = length (map2 closedBy cs ms @ map (closedAtEnd dur) opn) \<and>
            (\<forall>t. filter (\<lambda>u. gainedAt u = t) out =
                 filter (\<lambda>u. gainedAt u = t) (map2 closedBy cs ms @ map (closedAtEnd dur) opn))"
    by (intro exI)
  then show ?thesis using srt by (rule conjI [rotated])
qed

text \<open>
  Claim C5. The comment on \<open>logIndex\<close> says that it is to be used in place of the
  timestamp when logs are compared, the timestamp of the text lacking precision. The
  sort compares \<open>gainedAt\<close> only. Two auras gained at one timestamp, \<open>A\<close> at index 0 and
  \<open>B\<close> at index 1, and faded in the other order: the log of \<open>B\<close> comes before the log
  of \<open>A\<close>.
\<close>

theorem AuraUptimeLog_fromLogs_tie_order:
  "AuraUptimeLog_fromLogs ex_ops
      [AuraEvent ex_gainA, AuraEvent ex_gainB, AuraEvent ex_fadeB, AuraEvent ex_fadeA3]
      ex_player 300 =
     Inr [\<lparr> raw = ''[2.00] [Bob (#1)] Aura faded: B'', logIndex = 1, timestamp = 1,
            source = Some ex_player, target = None, actionId = Some (6, 0),
            spellSchool = None, threat = 0, gainedAt = 1, fadedAt = 2, stacksChange = [] \<rparr>,
          \<lparr> raw = ''[3.00] [Bob (#1)] Aura faded: A'', logIndex = 0, timestamp = 1,
            source = Some ex_player, target = None, actionId = Some (5, 0),
            spellSchool = None, threat = 0, gainedAt = 1, fadedAt = 3, stacksChange = [] \<rparr>] \<and>
   logIndex ex_gainA = 0 \<and> logIndex ex_gainB = 1 \<and>
   timestamp ex_gainA = 1 \<and> timestamp ex_gainB = 1"
  by (simp add: aura_eval ex_aura_defs2 ex_defs)

section \<open>Properties of \<open>CastLog.fromLogs\<close>\<close>

lemma takeDamage_takeWhile:
  "takeDamage n ds = (takeWhile (beforeNext n) ds, dropWhile (beforeNext n) ds)"
  by (induction ds) (auto simp: beforeNext_def)

lemma castsOfBucket_Cons:
  "castsOfBucket (cb # cbs) ccs dds =
     CastLog_new cb (nth_option ccs 0) (takeWhile (beforeNext (nth_option ccs 1)) dds) #
     castsOfBucket cbs (drop 1 ccs) (dropWhile (beforeNext (nth_option ccs 1)) dds)"
proof -
  have 1: "(case ccs of [] \<Rightarrow> None | c # _ \<Rightarrow> Some c) = nth_option ccs 0"
    by (cases ccs) (simp_all add: nth_option_def)
  have 2: "(case ccs of _ # n # _ \<Rightarrow> Some n | _ \<Rightarrow> None) = nth_option ccs 1"
    by (auto simp: nth_option_def split: list.splits)
  show ?thesis
    unfolding castsOfBucket.simps Let_def 1 2 takeDamage_takeWhile by simp
qed

lemma castsOfBucket_length [simp]: "length (castsOfBucket cbs ccs dds) = length cbs"
  by (induction cbs arbitrary: ccs dds) (simp_all only: castsOfBucket.simps(1) castsOfBucket_Cons list.size)

lemma nth_option_drop: "nth_option (drop (Suc 0) xs) i = nth_option xs (Suc i)"
  by (cases xs) (auto simp: nth_option_def)

lemma castsOfBucket_nth:
  "i < length cbs \<Longrightarrow>
     castBeganLog (castsOfBucket cbs ccs dds ! i) = cbs ! i \<and>
     castCompletedLog (castsOfBucket cbs ccs dds ! i) = nth_option ccs i \<and>
     damageDealtLogs (castsOfBucket cbs ccs dds ! i) =
       takeWhile (beforeNext (nth_option ccs (Suc i)))
         (drop (length (concat (map damageDealtLogs (take i (castsOfBucket cbs ccs dds))))) dds)"
proof (induction cbs arbitrary: ccs dds i)
  case Nil
  then show ?case by simp
next
  case (Cons cb cbs)
  show ?case
  proof (cases i)
    case 0
    then show ?thesis
      unfolding castsOfBucket_Cons by (simp add: CastLog_new_fields)
  next
    case (Suc j)
    then have j: "j < length cbs" using Cons.prems by simp
    note ih = Cons.IH [OF j, of "drop 1 ccs" "dropWhile (beforeNext (nth_option ccs 1)) dds"]
    have d: "drop (length (takeWhile P dds) + n) dds = drop n (dropWhile P dds)" for P n
      by (metis add.commute drop_drop dropWhile_eq_drop)
    show ?thesis
      unfolding castsOfBucket_Cons Suc
      using ih by (simp add: CastLog_new_fields nth_option_drop d)
  qed
qed


lemma sorted_takeWhile_filter:
  "sorted (map f xs) \<Longrightarrow> takeWhile (\<lambda>x. f x < (b::rat)) xs = filter (\<lambda>x. f x < b) xs"
proof (induction xs)
  case Nil
  then show ?case by simp
next
  case (Cons x xs)
  show ?case
  proof (cases "f x < b")
    case True
    then show ?thesis using Cons by simp
  next
    case False
    have "\<forall>y \<in> set xs. \<not> f y < b" using Cons.prems False by auto
    then have "filter (\<lambda>x. f x < b) xs = []" by (simp add: filter_empty_conv)
    then show ?thesis using False by simp
  qed
qed

lemma sorted_takeWhile_beforeNext:
  "sorted (map timestamp dds) \<Longrightarrow> takeWhile (beforeNext n) dds = filter (beforeNext n) dds"
proof (cases n)
  case None
  then show ?thesis by (simp add: beforeNext_def)
next
  case (Some c)
  assume "sorted (map timestamp dds)"
  moreover have "beforeNext (Some c) = (\<lambda>d. timestamp d < timestamp c)"
    by (rule ext) (simp add: beforeNext_def)
  ultimately show ?thesis
    using sorted_takeWhile_filter [of timestamp dds "timestamp c"] Some by simp
qed

lemma castsOfBucket_interval:
  assumes "sorted (map timestamp dds)" "sorted (map timestamp ccs)"
    and "\<forall>d \<in> set dds. \<forall>c \<in> set (take 1 ccs). timestamp c \<le> timestamp d"
    and "i < length cbs" "i < length ccs"
  shows "damageDealtLogs (castsOfBucket cbs ccs dds ! i) =
           filter (\<lambda>d. timestamp (ccs ! i) \<le> timestamp d \<and> beforeNext (nth_option ccs (Suc i)) d) dds"
  using assms
proof (induction cbs arbitrary: ccs dds i)
  case Nil
  then show ?case by simp
next
  case (Cons cb cbs)
  let ?p = "beforeNext (nth_option ccs 1)"
  obtain c ccs' where ccs: "ccs = c # ccs'" using Cons.prems(5) by (cases ccs) auto
  show ?case
  proof (cases i)
    case 0
    have "\<forall>d \<in> set dds. timestamp c \<le> timestamp d" using Cons.prems(3) ccs by simp
    then have "filter (\<lambda>d. timestamp (ccs ! 0) \<le> timestamp d \<and> ?p d) dds = filter ?p dds"
      using ccs by (intro filter_cong) auto
    then show ?thesis
      unfolding castsOfBucket_Cons 0
      using sorted_takeWhile_beforeNext [OF Cons.prems(1), of "nth_option ccs 1"]
      by (simp add: CastLog_new_fields)
  next
    case (Suc j)
    then have j: "j < length cbs" "j < length ccs'" using Cons.prems(4,5) ccs by simp_all
    then obtain n ccs'' where ccs': "ccs' = n # ccs''" by (cases ccs') auto
    have p: "?p = (\<lambda>d. timestamp d < timestamp n)"
      using ccs ccs' by (auto simp: beforeNext_def nth_option_def)
    let ?rest = "dropWhile ?p dds"
    have s1: "sorted (map timestamp ?rest)"
      using Cons.prems(1) by (metis append_take_drop_id dropWhile_eq_drop map_append sorted_append)
    have s2: "sorted (map timestamp ccs')" using Cons.prems(2) ccs by simp
    have s3: "\<forall>d \<in> set ?rest. \<forall>c \<in> set (take 1 ccs'). timestamp c \<le> timestamp d"
    proof (cases ?rest)
      case Nil
      show ?thesis unfolding Nil by simp
    next
      case (Cons r rs)
      then have "\<not> ?p r" using hd_dropWhile [of ?p dds] by (metis list.sel(1) list.simps(3))
      then have "timestamp n \<le> timestamp r" using p by simp
      moreover have "\<forall>d \<in> set ?rest. timestamp r \<le> timestamp d" using s1 Cons by auto
      ultimately show ?thesis using ccs' by fastforce
    qed
    have ih: "damageDealtLogs (castsOfBucket cbs ccs' ?rest ! j) =
           filter (\<lambda>d. timestamp (ccs' ! j) \<le> timestamp d \<and> beforeNext (nth_option ccs' (Suc j)) d) ?rest"
      by (rule Cons.IH [OF s1 s2 s3 j])
    let ?Q = "\<lambda>d. timestamp (ccs ! i) \<le> timestamp d \<and> beforeNext (nth_option ccs (Suc i)) d"
    have Q: "?Q = (\<lambda>d. timestamp (ccs' ! j) \<le> timestamp d \<and> beforeNext (nth_option ccs' (Suc j)) d)"
      using ccs Suc by (auto simp: nth_option_def)
    have "timestamp n \<le> timestamp (ccs ! i)"
      using Cons.prems(2) ccs ccs' Suc j(2) by (cases j) auto
    then have "\<forall>d \<in> set (takeWhile ?p dds). \<not> ?Q d"
      using p by (auto dest!: set_takeWhileD)
    then have "filter ?Q (takeWhile ?p dds) = []" by (simp add: filter_empty_conv)
    moreover have "filter ?Q dds = filter ?Q (takeWhile ?p dds) @ filter ?Q ?rest"
      by (metis filter_append takeWhile_dropWhile_id)
    ultimately have "filter ?Q dds = filter ?Q ?rest" by simp
    then show ?thesis
      unfolding castsOfBucket_Cons Suc using ih Q ccs Suc by simp
  qed
qed


lemma bucket_add_keys:
  "map fst (bucket_add b k v) = (if k \<in> set (map fst b) then map fst b else map fst b @ [k])"
proof (induction b)
  case Nil
  then show ?case by simp
next
  case (Cons p b)
  obtain k' vs where p: "p = (k', vs)" by (cases p)
  show ?case
  proof (cases "k' = k")
    case True
    then show ?thesis by (simp add: p)
  next
    case False
    then show ?thesis using Cons by (simp add: p)
  qed
qed

lemma bucket_add_logsOfKey:
  "logsOfKey (bucket_add b k v) k' = (if k' = k then logsOfKey b k @ [v] else logsOfKey b k')"
  by (induction b) (auto simp: logsOfKey_def)

lemma bucketInv_step:
  assumes "bucketInv toStr pre b" "toStr v = Inr k"
  shows "bucketInv toStr (pre @ [v]) (bucket_add b k v)"
proof -
  have d: "distinct (map fst (bucket_add b k v))"
    using assms(1) by (simp add: bucket_add_keys bucketInv_def)
  have s: "set (map fst (bucket_add b k v)) = {k. \<exists>x \<in> set (pre @ [v]). toStr x = Inr k}"
    using assms unfolding bucket_add_keys bucketInv_def by auto
  have l: "logsOfKey (bucket_add b k v) k' = filter (\<lambda>x. toStr x = Inr k') (pre @ [v])" for k'
    using assms unfolding bucket_add_logsOfKey bucketInv_def by auto
  show ?thesis unfolding bucketInv_def using d s l by blast
qed

lemma bucket_Inr:
  assumes "bucket arr toStr = Inr b"
  shows "bucketInv toStr arr b"
proof -
  let ?f = "\<lambda>buckets val. case toStr val of Inl e \<Rightarrow> Inl e | Inr k \<Rightarrow> Inr (bucket_add buckets k val)"
  have "bucketInv toStr [] []" by (simp add: bucketInv_def logsOfKey_def)
  moreover have "foldE ?f [] arr = Inr b" using assms by (simp add: bucket_def)
  ultimately have "bucketInv toStr ([] @ arr) b"
  proof (rule foldE_invariant)
    fix pre s x s'
    assume "bucketInv toStr pre s" "?f s x = Inr s'"
    then show "bucketInv toStr (pre @ [x]) s'"
      by (cases "toStr x") (auto intro: bucketInv_step)
  qed
  then show ?thesis by simp
qed

lemma foldE_total:
  "(\<And>s x. x \<in> set xs \<Longrightarrow> \<exists>s'. f s x = Inr s') \<Longrightarrow> \<exists>s'. foldE f s xs = Inr s'"
proof (induction xs arbitrary: s)
  case Nil
  then show ?case by simp
next
  case (Cons x xs)
  obtain s1 where "f s x = Inr s1" using Cons.prems [of x s] by auto
  moreover obtain s2 where "foldE f s1 xs = Inr s2" using Cons.IH [of s1] Cons.prems by auto
  ultimately show ?case by simp
qed

lemma bucket_total:
  assumes "\<forall>v \<in> set arr. \<exists>k. toStr v = Inr k"
  shows "\<exists>b. bucket arr toStr = Inr b"
  unfolding bucket_def
proof (rule foldE_total)
  fix s x assume "x \<in> set arr"
  then obtain k where "toStr x = Inr k" using assms by auto
  then show "\<exists>s'. (case toStr x of Inl e \<Rightarrow> Inl e | Inr k \<Rightarrow> Inr (bucket_add s k x)) = Inr s'"
    by simp
qed

lemma Object_keys_set: "set (Object_keys obj) = set (map fst obj)"
  by (auto simp: Object_keys_def)

lemma Object_keys_distinct: "distinct (map fst obj) \<Longrightarrow> distinct (Object_keys obj)"
  by (auto simp: Object_keys_def)

lemma bucketKeyOf_total: "actionId l \<noteq> None \<Longrightarrow> \<exists>k. bucketKeyOf ops l = Inr k"
  by (auto simp: bucketKeyOf_def)


lemma map_filter_mem: "x \<in> set (List.map_filter f xs) \<Longrightarrow> \<exists>l \<in> set xs. f l = Some x"
  by (auto simp: List.map_filter_def)

lemma isCastBegan_Some: "isCastBegan l = Some b \<Longrightarrow> l = CastBegan b"
  by (cases l) auto

lemma isCastCompleted_Some: "isCastCompleted l = Some b \<Longrightarrow> l = CastCompleted b"
  by (cases l) auto

lemma isDamageDealt_Some: "isDamageDealt l = Some b \<Longrightarrow> l = DamageDealt b"
  by (cases l) auto

lemma CastLog_fromLogs_link:
  assumes wf: "\<forall>l \<in> set ls. needsActionId l \<longrightarrow> actionId (params l) \<noteq> None"
  shows "\<exists>out ks. CastLog_fromLogs ops ls = Inr out \<and> distinct ks \<and>
            set ks = {k. \<exists>b \<in> set (List.map_filter isCastBegan ls). bucketKeyOf ops b = Inr k} \<and>
            out = sort_key timestamp
                    (concat (map (\<lambda>k. castsOfBucket
                                         (bucketOf ops k (List.map_filter isCastBegan ls))
                                         (bucketOf ops k (List.map_filter isCastCompleted ls))
                                         (bucketOf ops k (List.map_filter isDamageDealt ls))) ks))"
proof -
  let ?B = "List.map_filter isCastBegan ls"
  let ?C = "List.map_filter isCastCompleted ls"
  let ?D = "List.map_filter isDamageDealt ls"
  have "\<forall>v \<in> set ?B. \<exists>k. bucketKeyOf ops v = Inr k"
  proof
    fix v assume "v \<in> set ?B"
    then obtain l where "l \<in> set ls" "l = CastBegan v"
      using map_filter_mem isCastBegan_Some by metis
    then have "actionId v \<noteq> None" using wf by (auto simp: needsActionId_def truncate_fields)
    then show "\<exists>k. bucketKeyOf ops v = Inr k" by (rule bucketKeyOf_total)
  qed
  then obtain began where began: "bucket ?B (bucketKeyOf ops) = Inr began"
    using bucket_total by blast
  have "\<forall>v \<in> set ?C. \<exists>k. bucketKeyOf ops v = Inr k"
  proof
    fix v assume "v \<in> set ?C"
    then obtain l where "l \<in> set ls" "l = CastCompleted v"
      using map_filter_mem isCastCompleted_Some by metis
    then have "actionId v \<noteq> None" using wf by (auto simp: needsActionId_def)
    then show "\<exists>k. bucketKeyOf ops v = Inr k" by (rule bucketKeyOf_total)
  qed
  then obtain completed where completed: "bucket ?C (bucketKeyOf ops) = Inr completed"
    using bucket_total by blast
  have "\<forall>v \<in> set ?D. \<exists>k. bucketKeyOf ops v = Inr k"
  proof
    fix v assume "v \<in> set ?D"
    then obtain l where "l \<in> set ls" "l = DamageDealt v"
      using map_filter_mem isDamageDealt_Some by metis
    then have "actionId v \<noteq> None" using wf by (auto simp: needsActionId_def truncate_fields)
    then show "\<exists>k. bucketKeyOf ops v = Inr k" by (rule bucketKeyOf_total)
  qed
  then obtain dealt where dealt: "bucket ?D (bucketKeyOf ops) = Inr dealt"
    using bucket_total by blast
  note bi = bucket_Inr [OF began, unfolded bucketInv_def]
  note ci = bucket_Inr [OF completed, unfolded bucketInv_def]
  note di = bucket_Inr [OF dealt, unfolded bucketInv_def]
  let ?ks = "Object_keys began"
  have l1: "logsOfKey began k = bucketOf ops k ?B" for k using bi by (simp add: bucketOf_def)
  have l2: "logsOfKey completed k = bucketOf ops k ?C" for k using ci by (simp add: bucketOf_def)
  have l3: "logsOfKey dealt k = bucketOf ops k ?D" for k using di by (simp add: bucketOf_def)
  have out: "CastLog_fromLogs ops ls =
      Inr (sort_key timestamp
             (concat (map (\<lambda>k. castsOfBucket (bucketOf ops k ?B) (bucketOf ops k ?C) (bucketOf ops k ?D)) ?ks)))"
    by (simp add: CastLog_fromLogs_def began completed dealt l1 l2 l3)
  have d: "distinct ?ks" using bi by (simp add: Object_keys_distinct)
  have s: "set ?ks = {k. \<exists>b \<in> set ?B. bucketKeyOf ops b = Inr k}"
    using bi by (simp add: Object_keys_set)
  show ?thesis using out d s by blast
qed


lemmas cast_eval = CastLog_fromLogs_def bucket_def bucketKeyOf_def toBucketKey_def
  Object_keys_def isArrayIndex_def isDigit_def decimalValue_def digitValue_def logsOfKey_def
  List.map_filter_def ex_ops_def showNat.simps

lemma ex_castLogs_eval:
  "CastLog_fromLogs ex_ops ex_castLogs =
     Inr [CastLog_new (ex_castBegan 0 0 (Some (7, 1))) (Some (ex_completed 1 2 (Some (7, 1))))
            [ex_damage 2 2 (Some (7, 1)) 100 False, ex_damage 4 4 (Some (7, 1)) 40 True],
          CastLog_new (ex_castBegan 3 3 (Some (7, 1))) (Some (ex_completed 5 5 (Some (7, 1))))
            [ex_damage 6 5 (Some (7, 1)) 100 False],
          CastLog_new (ex_castBegan 7 6 (Some (7, 1))) None [],
          CastLog_new (ex_castBegan 8 6 (Some (12, 0))) None []]"
  by (simp add: ex_castLogs_def cast_eval ex_defs ex_completed_def CastLog_new_def)

text \<open>
  What the loop computes. When every cast and damage log carries an action identifier,
  \<open>CastLog.fromLogs\<close> returns the casts of the buckets of the begin logs, sorted by
  timestamp. In a bucket the i-th begin log is paired with the i-th completion log, and a
  begin log beyond the last completion gets a cast with no completion. The damage logs
  of the i-th cast are the longest run of the bucket's damage logs not taken by an earlier
  cast that are earlier than the next completion, all of them when there is no next
  completion. When the bucket's damage logs and completion logs are in time order and no
  damage log is earlier than the first completion, the damage logs of a paired cast are
  exactly the bucket's damage logs from its completion on and before the next one.
\<close>

lemma CastLog_fromLogs_cursor:
  assumes "\<forall>l \<in> set ls. needsActionId l \<longrightarrow> actionId (params l) \<noteq> None"
  shows "(\<exists>out ks. CastLog_fromLogs ops ls = Inr out \<and> distinct ks \<and>
            set ks = {k. \<exists>b \<in> set (List.map_filter isCastBegan ls). bucketKeyOf ops b = Inr k} \<and>
            out = sort_key timestamp
                    (concat (map (\<lambda>k. castsOfBucket
                                         (bucketOf ops k (List.map_filter isCastBegan ls))
                                         (bucketOf ops k (List.map_filter isCastCompleted ls))
                                         (bucketOf ops k (List.map_filter isDamageDealt ls))) ks))) \<and>
         (\<forall>cbs ccs dds i. i < length cbs \<longrightarrow>
            length (castsOfBucket cbs ccs dds) = length cbs \<and>
            castBeganLog (castsOfBucket cbs ccs dds ! i) = cbs ! i \<and>
            castCompletedLog (castsOfBucket cbs ccs dds ! i) = nth_option ccs i \<and>
            damageDealtLogs (castsOfBucket cbs ccs dds ! i) =
              takeWhile (beforeNext (nth_option ccs (Suc i)))
                (drop (length (concat (map damageDealtLogs (take i (castsOfBucket cbs ccs dds)))))
                   dds)) \<and>
         (\<forall>cbs ccs dds i.
            sorted (map timestamp dds) \<and> sorted (map timestamp ccs) \<and>
            (\<forall>d \<in> set dds. \<forall>c \<in> set (take 1 ccs). timestamp c \<le> timestamp d) \<and>
            i < length cbs \<and> i < length ccs \<longrightarrow>
              damageDealtLogs (castsOfBucket cbs ccs dds ! i) =
                filter (\<lambda>d. timestamp (ccs ! i) \<le> timestamp d \<and>
                             beforeNext (nth_option ccs (Suc i)) d) dds)"
proof -
  have a: "\<exists>out ks. CastLog_fromLogs ops ls = Inr out \<and> distinct ks \<and>
            set ks = {k. \<exists>b \<in> set (List.map_filter isCastBegan ls). bucketKeyOf ops b = Inr k} \<and>
            out = sort_key timestamp
                    (concat (map (\<lambda>k. castsOfBucket
                                         (bucketOf ops k (List.map_filter isCastBegan ls))
                                         (bucketOf ops k (List.map_filter isCastCompleted ls))
                                         (bucketOf ops k (List.map_filter isDamageDealt ls))) ks))"
    using assms by (rule CastLog_fromLogs_link)
  have b: "\<forall>cbs ccs dds i. i < length cbs \<longrightarrow>
            length (castsOfBucket cbs ccs dds) = length cbs \<and>
            castBeganLog (castsOfBucket cbs ccs dds ! i) = cbs ! i \<and>
            castCompletedLog (castsOfBucket cbs ccs dds ! i) = nth_option ccs i \<and>
            damageDealtLogs (castsOfBucket cbs ccs dds ! i) =
              takeWhile (beforeNext (nth_option ccs (Suc i)))
                (drop (length (concat (map damageDealtLogs (take i (castsOfBucket cbs ccs dds)))))
                   dds)"
    for dummy :: "'a"
    using castsOfBucket_nth castsOfBucket_length by blast
  have c: "\<forall>cbs ccs dds i.
            sorted (map timestamp dds) \<and> sorted (map timestamp ccs) \<and>
            (\<forall>d \<in> set dds. \<forall>c \<in> set (take 1 ccs). timestamp c \<le> timestamp d) \<and>
            i < length cbs \<and> i < length ccs \<longrightarrow>
              damageDealtLogs (castsOfBucket cbs ccs dds ! i) =
                filter (\<lambda>d. timestamp (ccs ! i) \<le> timestamp d \<and>
                             beforeNext (nth_option ccs (Suc i)) d) dds"
    for dummy :: "'a"
    by (intro allI impI, elim conjE, rule castsOfBucket_interval; assumption)
  show ?thesis using a b c by (intro conjI)
qed

text \<open>
  Claim C2. The comments on \<open>damageDealtLogs\<close> and on the loop say that a cast gets the
  damage dealt from its completion until the next completion. The loop compares a damage
  log with the next completion only. Here the first cast completes at 2 and the next at
  5; the damage log at 1, before the completion of the first cast, is attributed to it.
\<close>

theorem CastLog_fromLogs_early_damage:
  "CastLog_fromLogs ex_ops ex_earlyDamage =
     Inr [CastLog_new (ex_castBegan 0 0 (Some (7, 1)))
            (Some (ex_completed 2 2 (Some (7, 1))))
            [ex_damage 1 1 (Some (7, 1)) 100 False],
          CastLog_new (ex_castBegan 3 3 (Some (7, 1)))
            (Some (ex_completed 4 5 (Some (7, 1)))) []] \<and>
   timestamp (ex_damage 1 1 (Some (7 :: nat, 1 :: nat)) 100 False) = 1 \<and>
   timestamp (ex_completed 2 2 (Some (7 :: nat, 1 :: nat))) = 2 \<and>
   timestamp (ex_completed 4 5 (Some (7 :: nat, 1 :: nat))) = 5"
  by (simp add: ex_earlyDamage_def cast_eval ex_defs ex_completed_def CastLog_new_def)

section \<open>Properties of the matcher and of \<open>Entity.parseAll\<close>\<close>

text \<open>
  A match hands to its continuation a suffix of the text, a proper one when the pattern
  is consuming.
\<close>

lemma rmatch_progress:
  "rmatch r s cs k = Some x \<Longrightarrow>
   \<exists>s' cs'. k s' cs' = Some x \<and> length s' \<le> length s \<and> (consuming r \<longrightarrow> length s' < length s)"
proof (induction r s cs k arbitrary: x rule: rmatch.induct)
  case (1 c s cs k)
  then show ?case by (auto simp: rmatch.simps split: list.splits if_splits)
next
  case (2 s cs k)
  then show ?case by (auto simp: rmatch.simps split: list.splits if_splits)
next
  case (3 rs s cs k)
  then show ?case by (auto simp: rmatch.simps split: list.splits if_splits)
next
  case (4 rs s cs k)
  then show ?case by (auto simp: rmatch.simps split: list.splits if_splits)
next
  case (5 s cs k)
  then show ?case by (auto simp: rmatch.simps)
next
  case (6 a b s cs k)
  from "6.prems" have "rmatch a s cs (\<lambda>s' cs'. rmatch b s' cs' k) = Some x"
    by (simp add: rmatch.simps)
  from "6.IH"(2) [OF this] obtain s1 cs1 where
    m: "rmatch b s1 cs1 k = Some x" and l1: "length s1 \<le> length s"
    and c1: "consuming a \<longrightarrow> length s1 < length s" by blast
  from "6.IH"(1) [OF m] obtain s2 cs2 where
    k: "k s2 cs2 = Some x" and l2: "length s2 \<le> length s1"
    and c2: "consuming b \<longrightarrow> length s2 < length s1" by blast
  show ?case
  proof (intro exI conjI)
    show "k s2 cs2 = Some x" by (rule k)
    show "length s2 \<le> length s" using l1 l2 by simp
    show "consuming (Seq a b) \<longrightarrow> length s2 < length s" using l1 l2 c1 c2 by auto
  qed
next
  case (7 a b s cs k)
  show ?case
  proof (cases "rmatch a s cs k")
    case None
    with "7.prems" have "rmatch b s cs k = Some x" by (simp add: rmatch.simps)
    from "7.IH"(2) [OF None this] show ?thesis by auto
  next
    case (Some y)
    with "7.prems" have "rmatch a s cs k = Some x" by (simp add: rmatch.simps)
    from "7.IH"(1) [OF this] show ?thesis by auto
  qed
next
  case (8 a s cs k)
  let ?k1 = "\<lambda>s' cs'. if length s' < length s then rmatch (Star a) s' cs' k else None"
  show ?case
  proof (cases "rmatch a s cs ?k1")
    case None
    with "8.prems" have "k s cs = Some x" by (simp add: rmatch.simps)
    then show ?thesis by auto
  next
    case (Some y)
    with "8.prems" have "rmatch a s cs ?k1 = Some x" by (simp add: rmatch.simps)
    from "8.IH"(2) [OF this] obtain s1 cs1 where
      m: "?k1 s1 cs1 = Some x" by blast
    then have l1: "length s1 < length s" and m': "rmatch (Star a) s1 cs1 k = Some x"
      by (auto split: if_splits)
    from "8.IH"(1) [OF l1 m'] obtain s2 cs2 where
      "k s2 cs2 = Some x" "length s2 \<le> length s1" by blast
    with l1 show ?thesis by (intro exI [of _ s2] exI [of _ cs2]) simp
  qed
next
  case (9 a s cs k)
  let ?k1 = "\<lambda>s' cs'. if length s' < length s then rmatch (Lazy a) s' cs' k else None"
  show ?case
  proof (cases "k s cs")
    case None
    with "9.prems" have "rmatch a s cs ?k1 = Some x" by (simp add: rmatch.simps)
    from "9.IH"(2) [OF None this] obtain s1 cs1 where
      m: "?k1 s1 cs1 = Some x" by blast
    then have l1: "length s1 < length s" and m': "rmatch (Lazy a) s1 cs1 k = Some x"
      by (auto split: if_splits)
    from "9.IH"(1) [OF None l1 m'] obtain s2 cs2 where
      "k s2 cs2 = Some x" "length s2 \<le> length s1" by blast
    with l1 show ?thesis by (intro exI [of _ s2] exI [of _ cs2]) simp
  next
    case (Some y)
    with "9.prems" have "k s cs = Some x" by (simp add: rmatch.simps)
    then show ?thesis by auto
  qed
next
  case (10 n a s cs k)
  from "10.prems" have
    "rmatch a s cs (\<lambda>s' cs'. k s' ((n, take (length s - length s') s) # cs')) = Some x"
    by (simp add: rmatch.simps)
  from "10.IH" [OF this] show ?case by auto
qed


text \<open>A group around a consuming pattern captures a text that is not empty.\<close>

lemma rmatch_Group:
  assumes "rmatch (Group n a) s cs k = Some x" and "consuming a"
  shows "\<exists>s' cs' t. k s' ((n, t) # cs') = Some x \<and> t \<noteq> []"
proof -
  let ?k = "\<lambda>s' cs'. k s' ((n, take (length s - length s') s) # cs')"
  from assms(1) have "rmatch a s cs ?k = Some x" by (simp add: rmatch.simps)
  from rmatch_progress [OF this] assms(2) obtain s' cs' where
    k: "?k s' cs' = Some x" and l: "length s' < length s" by blast
  from l have "take (length s - length s') s \<noteq> []" by auto
  with k show ?thesis by blast
qed

lemma consuming_entity:
  "consuming (seqs [lits ''Target '', Group 2 (oneOrMore re_digit)])"
  "consuming (seqs [Group 4 (oneOrMore (Set alnumRanges)), lits '' (#'', Group 5 (oneOrMore re_digit),
                       lits '') - '',
                       Group 6 (oneOrMore (Set (alnumRanges @ whiteRanges @
                                  [(CHR '':'', CHR '':''), (CHR '','', CHR '','')])))])"
  "consuming (seqs [Group 8 (oneOrMore (Set (alnumRanges @ whiteRanges))), lits '' (#'',
                             Group 9 (oneOrMore re_digit), Lit CHR '')''])"
  by (simp_all add: seqs_def lits_def oneOrMore_def re_digit_def)

text \<open>
  Each alternative of \<open>parseRegex\<close> fills its outer group, so that the \<open>throw\<close> of
  \<open>Entity.parseAll\<close> is never reached.
\<close>

lemma Entity_parseRegex_groups:
  assumes "rmatch Entity_parseRegex s [] (\<lambda>s' cs'. Some (s', cs')) = Some x"
  shows "truthy (capture (snd x) 1) \<or> truthy (capture (snd x) 3) \<or> truthy (capture (snd x) 7)"
proof -
  let ?K = "\<lambda>s' cs'. Some (s', cs') :: (string \<times> caps) option"
  let ?B1 = "seqs [lits ''Target '', Group 2 (oneOrMore re_digit)]"
  let ?B3 = "seqs [Group 4 (oneOrMore (Set alnumRanges)), lits '' (#'', Group 5 (oneOrMore re_digit),
                       lits '') - '',
                       Group 6 (oneOrMore (Set (alnumRanges @ whiteRanges @
                                  [(CHR '':'', CHR '':''), (CHR '','', CHR '','')])))]"
  let ?B7 = "seqs [Group 8 (oneOrMore (Set (alnumRanges @ whiteRanges))), lits '' (#'',
                             Group 9 (oneOrMore re_digit), Lit CHR '')'']"
  let ?A1 = "Seq (Lit CHR ''['') (Seq (Group 1 ?B1) Eps)"
  let ?A3 = "Seq (Group 7 ?B7) (Seq (Lit CHR '']'') Eps)"
  have shape: "Entity_parseRegex = Alt ?A1 (Alt (Group 3 ?B3) ?A3)"
    unfolding Entity_parseRegex_def alts_def by (simp add: seqs_def)
  from assms consider
      (a) "rmatch ?A1 s [] ?K = Some x"
    | (b) "rmatch (Group 3 ?B3) s [] ?K = Some x"
    | (c) "rmatch ?A3 s [] ?K = Some x"
    unfolding shape by (auto simp: rmatch.simps(7) split: option.splits)
  then show ?thesis
  proof cases
    case a
    then obtain xs where
      "rmatch (Group 1 ?B1) xs [] (\<lambda>s' cs'. rmatch Eps s' cs' ?K) = Some x"
      by (auto simp: rmatch.simps(1) rmatch.simps(6) split: list.splits if_splits)
    from rmatch_Group [OF this consuming_entity(1)] obtain s' cs' t where
      "rmatch Eps s' ((1, t) # cs') ?K = Some x" and "t \<noteq> []" by blast
    then show ?thesis by (auto simp: rmatch.simps(5) truthy_def capture_def)
  next
    case b
    from rmatch_Group [OF this consuming_entity(2)] obtain s' cs' t where
      "?K s' ((3, t) # cs') = Some x" and "t \<noteq> []" by blast
    then show ?thesis by (auto simp: truthy_def capture_def)
  next
    case c
    then have "rmatch (Group 7 ?B7) s [] (\<lambda>s' cs'. rmatch (Seq (Lit CHR '']'') Eps) s' cs' ?K) = Some x"
      by (simp add: rmatch.simps(6))
    from rmatch_Group [OF this consuming_entity(3)] obtain s' cs' t where
      "rmatch (Seq (Lit CHR '']'') Eps) s' ((7, t) # cs') ?K = Some x" and "t \<noteq> []" by blast
    then show ?thesis
      by (auto simp: rmatch.simps(1) rmatch.simps(5) rmatch.simps(6) truthy_def capture_def
          split: list.splits if_splits)
  qed
qed

lemma search_rmatch:
  "search r s i = Some (j, w, cs) \<Longrightarrow>
   \<exists>s0 x. rmatch r s0 [] (\<lambda>s' cs'. Some (s', cs')) = Some x \<and> cs = snd x"
proof (induction s arbitrary: i)
  case Nil
  show ?case
  proof (cases "rmatch r [] [] (\<lambda>s' cs'. Some (s', cs'))")
    case None
    with Nil show ?thesis by (simp add: search.simps)
  next
    case (Some y)
    with Nil have "cs = snd y" by (simp add: search.simps)
    with Some show ?thesis by blast
  qed
next
  case (Cons c s)
  show ?case
  proof (cases "rmatch r (c # s) [] (\<lambda>s' cs'. Some (s', cs'))")
    case None
    with Cons.prems have "search r s (Suc i) = Some (j, w, cs)" by (simp add: search.simps)
    from Cons.IH [OF this] show ?thesis .
  next
    case (Some y)
    with Cons.prems have "cs = snd y" by (simp add: search.simps)
    with Some show ?thesis by blast
  qed
qed

lemma matchAll_rmatch:
  "cs \<in> set (matchAll str r) \<Longrightarrow>
   \<exists>s0 x. rmatch r s0 [] (\<lambda>s' cs'. Some (s', cs')) = Some x \<and> cs = snd x"
proof (induction str r rule: matchAll.induct)
  case (1 str r)
  show ?case
  proof (cases "search r str 0")
    case None
    with "1.prems" show ?thesis by (simp add: matchAll.simps [of str r])
  next
    case (Some f)
    obtain j w m where f: "f = (j, w, m)" by (cases f)
    let ?rest = "drop (j + max 1 (length w)) str"
    from "1.prems" Some f have
      "cs = m \<or> (length ?rest < length str \<and> cs \<in> set (matchAll ?rest r))"
      by (auto simp: matchAll.simps [of str r] Let_def split: if_splits)
    then show ?thesis
    proof
      assume "cs = m"
      with search_rmatch [of r str 0 j w m] Some f show ?thesis by simp
    next
      assume a: "length ?rest < length str \<and> cs \<in> set (matchAll ?rest r)"
      show ?thesis
        by (rule "1.IH" [OF Some refl]) (use a f in simp_all)
    qed
  qed
qed

lemma Entity_ofMatch_total:
  assumes "m \<in> set (matchAll str Entity_parseRegex)"
  shows "\<exists>e. Entity_ofMatch m = Inr e"
proof -
  from matchAll_rmatch [OF assms] obtain s0 x where
    "rmatch Entity_parseRegex s0 [] (\<lambda>s' cs'. Some (s', cs')) = Some x" and "m = snd x" by blast
  with Entity_parseRegex_groups [of s0 x] show ?thesis
    by (auto simp: Entity_ofMatch_def)
qed

lemma Entity_parseAll_total: "\<exists>es. Entity_parseAll str = Inr es"
  unfolding Entity_parseAll_def by (rule mapE_total) (rule Entity_ofMatch_total)


section \<open>Properties of \<open>SimLog.parseAll\<close>\<close>

lemma extend_fields [simp]:
  "raw (SimLogParams.extend p f) = raw p"
  "logIndex (SimLogParams.extend p f) = logIndex p"
  by (simp_all add: SimLogParams.extend_def)

lemma parse_preserves:
  "DamageDealtLog_parse R p = Some l \<Longrightarrow> raw (params l) = raw p \<and> logIndex (params l) = logIndex p"
  "ResourceChangedLog_parse R p = Some l \<Longrightarrow> raw (params l) = raw p \<and> logIndex (params l) = logIndex p"
  "AuraEventLog_parse R p = Some l \<Longrightarrow> raw (params l) = raw p \<and> logIndex (params l) = logIndex p"
  "AuraStacksChangeLog_parse R p = Some l \<Longrightarrow> raw (params l) = raw p \<and> logIndex (params l) = logIndex p"
  "MajorCooldownUsedLog_parse R p = Some l \<Longrightarrow> raw (params l) = raw p \<and> logIndex (params l) = logIndex p"
  "CastBeganLog_parse R p = Some l \<Longrightarrow> raw (params l) = raw p \<and> logIndex (params l) = logIndex p"
  "CastCompletedLog_parse R p = Some l \<Longrightarrow> raw (params l) = raw p \<and> logIndex (params l) = logIndex p"
  "StatChangeLog_parse R p = Some l \<Longrightarrow> raw (params l) = raw p \<and> logIndex (params l) = logIndex p"
  by (auto simp: DamageDealtLog_parse_def DamageDealtLog_new_def ResourceChangedLog_parse_def
      AuraEventLog_parse_def AuraStacksChangeLog_parse_def MajorCooldownUsedLog_parse_def
      CastBeganLog_parse_def CastCompletedLog_parse_def StatChangeLog_parse_def Let_def
      split: option.splits prod.splits if_splits)

lemma classify_preserves:
  "raw (params (classify R p)) = raw p \<and> logIndex (params (classify R p)) = logIndex p"
  unfolding classify_def
  by (auto split: option.splits dest: parse_preserves)

lemma parse_None:
  "String_match (raw p) DamageDealtLog_regex = None \<Longrightarrow> DamageDealtLog_parse R p = None"
  "String_match (raw p) ResourceChangedLog_regex = None \<Longrightarrow> ResourceChangedLog_parse R p = None"
  "String_match (raw p) AuraEventLog_regex = None \<Longrightarrow> AuraEventLog_parse R p = None"
  "String_match (raw p) AuraStacksChangeLog_regex = None \<Longrightarrow> AuraStacksChangeLog_parse R p = None"
  "String_match (raw p) MajorCooldownUsedLog_regex = None \<Longrightarrow> MajorCooldownUsedLog_parse R p = None"
  "String_match (raw p) CastBeganLog_regex = None \<Longrightarrow> CastBeganLog_parse R p = None"
  "String_match (raw p) CastCompletedLog_regex = None \<Longrightarrow> CastCompletedLog_parse R p = None"
  "String_match (raw p) StatChangeLog_regex = None \<Longrightarrow> StatChangeLog_parse R p = None"
  by (simp_all add: DamageDealtLog_parse_def ResourceChangedLog_parse_def
      AuraEventLog_parse_def AuraStacksChangeLog_parse_def MajorCooldownUsedLog_parse_def
      CastBeganLog_parse_def CastCompletedLog_parse_def StatChangeLog_parse_def)

lemma classify_Plain: "matchedByNoKind (raw p) \<Longrightarrow> classify R p = Plain p"
  unfolding matchedByNoKind_def kindRegexes_def classify_def
  by (simp add: parse_None)

text \<open>The callback builds the header of the line and classifies it.\<close>

lemma parseLine_header:
  "parseLine R line i =
     Inr (case timestampMatch line of
            None \<Rightarrow> Plain (header line i)
          | Some m \<Rightarrow> classify R (header line i))"
proof (cases "String_match (beforeThreat line) timestamp_regex")
  case None
  then have "timestampMatch line = None" by (simp add: timestampMatch_def)
  with None show ?thesis
    by (simp add: parseLine_def header_def beforeThreat_def entitiesOf_def nth_option_def Let_def
        split: option.splits prod.splits)
next
  case (Some f)
  obtain j w m where f: "f = (j, w, m)" by (cases f)
  show ?thesis
  proof (cases "truthy (capture m 1)")
    case False
    with Some f have "timestampMatch line = None" by (simp add: timestampMatch_def)
    with Some f False show ?thesis
      by (simp add: parseLine_def header_def beforeThreat_def entitiesOf_def nth_option_def Let_def
          split: option.splits prod.splits)
  next
    case True
    with Some f have tm: "timestampMatch line = Some m" by (simp add: timestampMatch_def)
    obtain es where es: "Entity_parseAll (groupText m 2) = Inr es"
      using Entity_parseAll_total by blast
    have src: "(case es of [] \<Rightarrow> None | e # x \<Rightarrow> Some e) = nth_option es 0"
      by (cases es) (simp_all add: nth_option_def)
    have tgt: "(case es of [] \<Rightarrow> None | [x] \<Rightarrow> None | x # e # xa \<Rightarrow> Some e) = nth_option es 1"
      by (cases es rule: list.exhaust [case_names Nil Cons])
         (simp_all add: nth_option_def split: list.splits)
    from Some f True tm es show ?thesis
      by (simp add: parseLine_def header_def beforeThreat_def entitiesOf_def Let_def src tgt
          split: option.splits prod.splits)
  qed
qed

lemma parseLine_total:
  "\<exists>ev. parseLine R line i = Inr ev \<and> raw (params ev) = line \<and> logIndex (params ev) = i"
  unfolding parseLine_header
  by (cases "timestampMatch line") (simp_all add: classify_preserves, simp_all add: header_def)

text \<open>Once every position has settled, \<open>Promise.all\<close> yields the values in their positions.\<close>

lemma foldl_settle:
  "length vs = length ps \<Longrightarrow>
   foldl (\<lambda>vs i. if i < length ps then vs[i := Some (ps ! i)] else vs) vs schedule =
   map (\<lambda>i. if i \<in> set schedule then Some (ps ! i) else vs ! i) [0..<length ps]"
proof (induction schedule arbitrary: vs)
  case Nil
  then show ?case by (simp add: map_nth [symmetric] del: map_nth) (metis map_nth)
next
  case (Cons i schedule)
  let ?vs = "if i < length ps then vs[i := Some (ps ! i)] else vs"
  have len: "length ?vs = length ps" using Cons.prems by simp
  show ?case
    unfolding foldl_Cons Cons.IH [OF len]
    by (rule map_cong [OF refl]) (use Cons.prems in \<open>auto simp: nth_list_update\<close>)
qed

lemma Promise_all_covering:
  assumes "{..<length ps} \<subseteq> set schedule"
  shows "Promise_all schedule ps = Some ps"
proof -
  have "foldl (\<lambda>vs i. if i < length ps then vs[i := Some (ps ! i)] else vs)
          (replicate (length ps) None) schedule = map (\<lambda>i. Some (ps ! i)) [0..<length ps]"
    unfolding foldl_settle [of "replicate (length ps) None" ps schedule, simplified]
    by (rule map_cong [OF refl]) (use assms in auto)
  then show ?thesis
    by (simp add: Promise_all_def list_all_iff comp_def map_nth)
qed

lemma length_split_lines: "length (split_lines blob) = Suc (length (filter (\<lambda>c. c = newline) blob))"
  by (induction blob) (auto simp: newline_def split: list.splits)

lemma mapE_parseLine:
  "\<exists>evs. mapE (\<lambda>(line, lineIndex). parseLine R line lineIndex) (zip ls [n..<n + length ls]) = Inr evs \<and>
     length evs = length ls \<and>
     (\<forall>i<length ls. raw (params (evs ! i)) = ls ! i \<and> logIndex (params (evs ! i)) = n + i)"
proof (induction ls arbitrary: n)
  case Nil
  show ?case by simp
next
  case (Cons l ls)
  obtain ev where ev: "parseLine R l n = Inr ev" "raw (params ev) = l" "logIndex (params ev) = n"
    using parseLine_total by blast
  from Cons [of "Suc n"] obtain evs where
    evs: "mapE (\<lambda>(line, lineIndex). parseLine R line lineIndex) (zip ls [Suc n..<Suc n + length ls]) = Inr evs"
    and len: "length evs = length ls"
    and nth: "\<forall>i<length ls. raw (params (evs ! i)) = ls ! i \<and> logIndex (params (evs ! i)) = Suc n + i"
    by blast
  have up: "[n..<n + length (l # ls)] = n # [Suc n..<Suc n + length ls]"
    by (subst upt_rec) simp
  show ?case
  proof (intro exI [of _ "ev # evs"] conjI allI impI)
    show "mapE (\<lambda>(line, lineIndex). parseLine R line lineIndex) (zip (l # ls) [n..<n + length (l # ls)]) = Inr (ev # evs)"
      unfolding up using ev(1) evs by simp
    show "length (ev # evs) = length (l # ls)" using len by simp
  next
    fix i assume "i < length (l # ls)"
    then show "raw (params ((ev # evs) ! i)) = (l # ls) ! i"
      using ev nth by (cases i) simp_all
  next
    fix i assume "i < length (l # ls)"
    then show "logIndex (params ((ev # evs) ! i)) = n + i"
      using ev nth by (cases i) simp_all
  qed
qed

lemma SimLog_parseAll_events:
  assumes "{..<length (split_lines blob)} \<subseteq> set schedule"
  shows "\<exists>evs. SimLog_parseAll R schedule blob = Some (Inr evs) \<and>
           mapE (\<lambda>(line, lineIndex). parseLine R line lineIndex)
             (zip (split_lines blob) [0..<length (split_lines blob)]) = Inr evs \<and>
           length evs = length (split_lines blob) \<and>
           (\<forall>i<length (split_lines blob).
              raw (params (evs ! i)) = split_lines blob ! i \<and> logIndex (params (evs ! i)) = i)"
proof -
  from mapE_parseLine [of R "split_lines blob" 0] obtain evs where
    evs: "mapE (\<lambda>(line, lineIndex). parseLine R line lineIndex)
            (zip (split_lines blob) [0..<length (split_lines blob)]) = Inr evs"
    and len: "length evs = length (split_lines blob)"
    and nth: "\<forall>i<length (split_lines blob).
        raw (params (evs ! i)) = split_lines blob ! i \<and> logIndex (params (evs ! i)) = 0 + i"
    by auto
  from assms len have "Promise_all schedule evs = Some evs"
    by (intro Promise_all_covering) simp
  with evs have "SimLog_parseAll R schedule blob = Some (Inr evs)"
    by (simp add: SimLog_parseAll_def Let_def)
  with evs len nth show ?thesis by auto
qed

section \<open>Evaluating the parser on a line\<close>

lemma rmatch_steps:
  "rmatch (Lit c) [] cs k = None"
  "rmatch (Lit c) (x # xs) cs k = (if x = c then k xs cs else None)"
  "rmatch Dot [] cs k = None"
  "rmatch Dot (x # xs) cs k = (if lineTerminator x then None else k xs cs)"
  "rmatch (Set rs) [] cs k = None"
  "rmatch (Set rs) (x # xs) cs k = (if inRanges rs x then k xs cs else None)"
  "rmatch (NSet rs) [] cs k = None"
  "rmatch (NSet rs) (x # xs) cs k = (if inRanges rs x then None else k xs cs)"
  "rmatch Eps s cs k = k s cs"
  "rmatch (Seq a b) s cs k = rmatch a s cs (kSeq b k)"
  "rmatch (Alt a b) s cs k = (case rmatch a s cs k of Some r \<Rightarrow> Some r | None \<Rightarrow> rmatch b s cs k)"
  "rmatch (Star a) s cs k =
     (case rmatch a s cs (kStar a (length s) k) of Some r \<Rightarrow> Some r | None \<Rightarrow> k s cs)"
  "rmatch (Lazy a) s cs k =
     (case k s cs of Some r \<Rightarrow> Some r | None \<Rightarrow> rmatch a s cs (kLazy a (length s) k))"
  "rmatch (Group n a) s cs k = rmatch a s cs (kGroup n s k)"
  unfolding kSeq_def kStar_def kLazy_def kGroup_def by (simp_all add: rmatch.simps)

lemma k_steps:
  "kSeq b k s' cs' = rmatch b s' cs' k"
  "kStar a n k s' cs' = (if length s' < n then rmatch (Star a) s' cs' k else None)"
  "kLazy a n k s' cs' = (if length s' < n then rmatch (Lazy a) s' cs' k else None)"
  "kGroup n s k s' cs' = k s' ((n, take (length s - length s') s) # cs')"
  "kFound s' cs' = Some (s', cs')"
  by (simp_all add: kSeq_def kStar_def kLazy_def kGroup_def kFound_def)

lemma search_steps:
  "search r [] i =
     (case rmatch r [] [] kFound of Some found \<Rightarrow> Some (i, [], snd found) | None \<Rightarrow> None)"
  "search r (c # s) i =
     (case rmatch r (c # s) [] kFound of
        Some found \<Rightarrow> Some (i, take (length (c # s) - length (fst found)) (c # s), snd found)
      | None \<Rightarrow> search r s (Suc i))"
  by (simp_all add: search.simps kFound_def)

lemmas re_eval = String_match_def search_steps rmatch_steps k_steps
  lits_def seqs_def alts_def oneOrMore_def oneOrMoreLazy_def optional_def re_digit_def
  re_word_def whiteRanges_def alnumRanges_def re_number_def re_decimal_def inRanges_def
  lineTerminator_def


lemmas val_eval = capture_def truthy_def groupText_def
  parseInt_def parseFloat_def parseUnsigned_def isDigit_def decimalValue_def digitValue_def

lemmas parse_eval = parseLine_def classify_def Entity_parseAll_def Entity_ofMatch_def
  Entity_parseRegex_def spellSchool_regex_def threat_regex_def timestamp_regex_def
  DamageDealtLog_parse_def DamageDealtLog_regex_def DamageDealtLog_new_def
  ResourceChangedLog_parse_def ResourceChangedLog_regex_def
  AuraEventLog_parse_def AuraEventLog_regex_def
  AuraStacksChangeLog_parse_def AuraStacksChangeLog_regex_def
  MajorCooldownUsedLog_parse_def MajorCooldownUsedLog_regex_def
  CastBeganLog_parse_def CastBeganLog_regex_def
  CastCompletedLog_parse_def CastCompletedLog_regex_def
  StatChangeLog_parse_def StatChangeLog_regex_def
  sourceIndex_def ex_imports_def Let_def matchAll.simps

section \<open>Order of the events of \<open>SimLog.parseAll\<close>\<close>

lemma ex_blob_lines:
  "split_lines ex_blob = [''Start'', ''[2.0] [Bob (#1)] hello'', ''[2.5] [Bob (#1)] Completed cast F'']"
  by (simp add: ex_blob_def newline_def)

text \<open>
  Claim C1. A blob has one more line than it has newline characters. Whatever the order
  in which the promises of the lines settle, once all have settled \<open>parseAll\<close> yields one
  event for each line, the event at position \<open>i\<close> has \<open>logIndex\<close> \<open>i\<close> and the text of line
  \<open>i\<close>, the values of \<open>logIndex\<close> increase strictly along the result, and every other
  order of settlement yields the same list.
\<close>

theorem SimLog_parseAll_order:
  assumes "{..<length (split_lines blob)} \<subseteq> set schedule"
  shows "\<exists>evs. SimLog_parseAll R schedule blob = Some (Inr evs) \<and>
           length evs = length (split_lines blob) \<and>
           length evs = Suc (length (filter (\<lambda>c. c = newline) blob)) \<and>
           (\<forall>i<length evs.
              logIndex (params (evs ! i)) = i \<and> raw (params (evs ! i)) = split_lines blob ! i) \<and>
           sorted_wrt (<) (map (\<lambda>ev. logIndex (params ev)) evs) \<and>
           (\<forall>schedule'. {..<length (split_lines blob)} \<subseteq> set schedule' \<longrightarrow>
              SimLog_parseAll R schedule' blob = Some (Inr evs))"
proof -
  let ?f = "\<lambda>(line, lineIndex). parseLine R line lineIndex"
  let ?zs = "zip (split_lines blob) [0..<length (split_lines blob)]"
  from SimLog_parseAll_events [OF assms, of R] obtain evs where
    res: "SimLog_parseAll R schedule blob = Some (Inr evs)"
    and m: "mapE ?f ?zs = Inr evs"
    and len: "length evs = length (split_lines blob)"
    and nth: "\<forall>i<length (split_lines blob).
        raw (params (evs ! i)) = split_lines blob ! i \<and> logIndex (params (evs ! i)) = i"
    by blast
  have other: "SimLog_parseAll R schedule' blob = Some (Inr evs)"
    if "{..<length (split_lines blob)} \<subseteq> set schedule'" for schedule'
  proof -
    from SimLog_parseAll_events [OF that, of R] obtain evs' where
      "SimLog_parseAll R schedule' blob = Some (Inr evs')" and "mapE ?f ?zs = Inr evs'"
      by blast
    with m show ?thesis by simp
  qed
  have incr: "sorted_wrt (<) (map (\<lambda>ev. logIndex (params ev)) evs)"
    unfolding sorted_wrt_iff_nth_less using nth len by simp
  show ?thesis
  proof (intro exI [of _ evs] conjI)
    show "SimLog_parseAll R schedule blob = Some (Inr evs)" by (rule res)
    show "length evs = length (split_lines blob)" by (rule len)
    show "length evs = Suc (length (filter (\<lambda>c. c = newline) blob))"
      using len by (simp add: length_split_lines)
    show "\<forall>i<length evs.
        logIndex (params (evs ! i)) = i \<and> raw (params (evs ! i)) = split_lines blob ! i"
      using nth len by simp
    show "sorted_wrt (<) (map (\<lambda>ev. logIndex (params ev)) evs)" by (rule incr)
    show "\<forall>schedule'. {..<length (split_lines blob)} \<subseteq> set schedule' \<longrightarrow>
        SimLog_parseAll R schedule' blob = Some (Inr evs)"
      using other by blast
  qed
qed

theorem SimLog_parseAll_order_witness:
  "{..<length (split_lines ex_blob)} \<subseteq> set [2, 0, 1] \<and>
   (\<exists>evs. SimLog_parseAll ex_imports [2, 0, 1] ex_blob = Some (Inr evs) \<and>
      length evs = 3 \<and>
      (\<forall>i<length evs.
         logIndex (params (evs ! i)) = i \<and> raw (params (evs ! i)) = split_lines ex_blob ! i) \<and>
      SimLog_parseAll ex_imports [0, 1, 2] ex_blob = Some (Inr evs))"
proof -
  have cover: "{..<length (split_lines ex_blob)} \<subseteq> set [2, 0, 1]"
    by (auto simp: ex_blob_lines)
  have cover': "{..<length (split_lines ex_blob)} \<subseteq> set [0, 1, 2]"
    by (auto simp: ex_blob_lines)
  from SimLog_parseAll_order [OF cover, of ex_imports] cover' obtain evs where
    "SimLog_parseAll ex_imports [2, 0, 1] ex_blob = Some (Inr evs)"
    "length evs = length (split_lines ex_blob)"
    "\<forall>i<length evs.
       logIndex (params (evs ! i)) = i \<and> raw (params (evs ! i)) = split_lines ex_blob ! i"
    "SimLog_parseAll ex_imports [0, 1, 2] ex_blob = Some (Inr evs)"
    by blast
  with cover show ?thesis by (intro conjI exI [of _ evs]) (simp_all add: ex_blob_lines)
qed

section \<open>The generic event\<close>

lemma mapE_nth:
  "mapE f xs = Inr ys \<Longrightarrow> i < length xs \<Longrightarrow> f (xs ! i) = Inr (ys ! i)"
  unfolding mapE_Inr_iff by (rule list_all2_nthD)

text \<open>
  Claim C9, as the code has it. The timestamp is looked for anywhere in the line, up to
  the threat annotation. A line in which it stands nowhere, and a line that none of the
  eight patterns of the event classes matches, yield the plain log that carries the
  header of the line: the text of the line, its position, no action identifier, and the
  spell school and threat the line states. When the line has no timestamp, the timestamp
  of the log is 0 and it has neither source nor target. The line is neither dropped nor
  an error: once all lines have settled, the result has one event for each line and the
  plain log stands at the position of its line.
\<close>

theorem SimLog_parseAll_generic:
  assumes "{..<length (split_lines blob)} \<subseteq> set schedule"
    and "i < length (split_lines blob)"
    and "timestampMatch (split_lines blob ! i) = None \<or> matchedByNoKind (split_lines blob ! i)"
  shows "\<exists>evs p. SimLog_parseAll R schedule blob = Some (Inr evs) \<and>
           length evs = length (split_lines blob) \<and>
           evs ! i = Plain p \<and> p = header (split_lines blob ! i) i \<and>
           raw p = split_lines blob ! i \<and> logIndex p = i \<and> actionId p = None \<and>
           (timestampMatch (split_lines blob ! i) = None \<longrightarrow>
              timestamp p = 0 \<and> source p = None \<and> target p = None)"
proof -
  let ?line = "split_lines blob ! i"
  let ?f = "\<lambda>(line, lineIndex). parseLine R line lineIndex"
  let ?zs = "zip (split_lines blob) [0..<length (split_lines blob)]"
  let ?p = "header ?line i :: 'a SimLogParams"
  from SimLog_parseAll_events [OF assms(1), of R] obtain evs where
    res: "SimLog_parseAll R schedule blob = Some (Inr evs)"
    and m: "mapE ?f ?zs = Inr evs"
    and len: "length evs = length (split_lines blob)"
    by blast
  from mapE_nth [OF m, of i] assms(2) have "parseLine R ?line i = Inr (evs ! i)" by simp
  then have ev: "evs ! i = (case timestampMatch ?line of
      None \<Rightarrow> Plain ?p | Some m \<Rightarrow> classify R ?p)"
    unfolding parseLine_header by simp
  have raw: "raw ?p = ?line" by (simp add: header_def)
  have plain: "evs ! i = Plain ?p"
  proof (cases "timestampMatch ?line")
    case None
    with ev show ?thesis by simp
  next
    case (Some m)
    with assms(3) have "matchedByNoKind (raw ?p)" by (simp add: raw)
    from classify_Plain [OF this] ev Some show ?thesis by simp
  qed
  have none: "timestamp ?p = 0 \<and> source ?p = None \<and> target ?p = None"
    if "timestampMatch ?line = None"
    using that by (simp add: header_def entitiesOf_def nth_option_def)
  show ?thesis
  proof (intro exI [of _ evs] exI [of _ ?p] conjI)
    show "SimLog_parseAll R schedule blob = Some (Inr evs)" by (rule res)
    show "length evs = length (split_lines blob)" by (rule len)
    show "evs ! i = Plain ?p" by (rule plain)
    show "?p = header ?line i" by (rule refl)
    show "raw ?p = ?line" by (rule raw)
    show "logIndex ?p = i" by (simp add: header_def)
    show "actionId ?p = None" by (simp add: header_def)
    show "timestampMatch ?line = None \<longrightarrow>
        timestamp ?p = 0 \<and> source ?p = None \<and> target ?p = None"
      using none by blast
  qed
qed

lemma ex_line0_noTimestamp: "timestampMatch ''Start'' = None"
  by (simp add: timestampMatch_def beforeThreat_def threat_regex_def timestamp_regex_def
      re_eval val_eval)

lemma ex_line1_noKind: "matchedByNoKind ''[2.0] [Bob (#1)] hello''"
  by (simp add: matchedByNoKind_def kindRegexes_def DamageDealtLog_regex_def
      ResourceChangedLog_regex_def AuraEventLog_regex_def AuraStacksChangeLog_regex_def
      MajorCooldownUsedLog_regex_def CastBeganLog_regex_def CastCompletedLog_regex_def
      StatChangeLog_regex_def re_eval)

lemma ex_line1_header:
  "header ''[2.0] [Bob (#1)] hello'' 1 =
     \<lparr> raw = ''[2.0] [Bob (#1)] hello'', logIndex = 1, timestamp = 2,
       source = Some \<lparr> name = ''Bob'', ownerName = [], index = 0, isTarget = False,
                       isPet = False \<rparr>,
       target = None, actionId = None, spellSchool = None, threat = 0 \<rparr>"
  by (simp add: header_def entitiesOf_def timestampMatch_def beforeThreat_def nth_option_def
      threat_regex_def timestamp_regex_def spellSchool_regex_def Entity_parseAll_def
      Entity_ofMatch_def Entity_parseRegex_def matchAll.simps re_eval val_eval)

theorem SimLog_parseAll_generic_witness:
  "{..<length (split_lines ex_blob)} \<subseteq> set [2, 0, 1] \<and>
   1 < length (split_lines ex_blob) \<and>
   (timestampMatch (split_lines ex_blob ! 0) = None \<or> matchedByNoKind (split_lines ex_blob ! 0)) \<and>
   (timestampMatch (split_lines ex_blob ! 1) = None \<or> matchedByNoKind (split_lines ex_blob ! 1)) \<and>
   (\<exists>evs p q. SimLog_parseAll ex_imports [2, 0, 1] ex_blob = Some (Inr evs) \<and>
      length evs = 3 \<and>
      evs ! 0 = Plain p \<and> raw p = ''Start'' \<and> logIndex p = 0 \<and> actionId p = None \<and>
      timestamp p = 0 \<and> source p = None \<and> target p = None \<and>
      evs ! 1 = Plain q \<and> raw q = ''[2.0] [Bob (#1)] hello'' \<and> logIndex q = 1 \<and>
      actionId q = None \<and> timestamp q = 2)"
proof -
  have cover: "{..<length (split_lines ex_blob)} \<subseteq> set [2, 0, 1]"
    by (auto simp: ex_blob_lines)
  have l0: "0 < length (split_lines ex_blob)" and l1: "1 < length (split_lines ex_blob)"
    by (simp_all add: ex_blob_lines)
  have h0: "timestampMatch (split_lines ex_blob ! 0) = None \<or> matchedByNoKind (split_lines ex_blob ! 0)"
    by (simp add: ex_blob_lines ex_line0_noTimestamp)
  have h1: "timestampMatch (split_lines ex_blob ! 1) = None \<or> matchedByNoKind (split_lines ex_blob ! 1)"
    by (simp add: ex_blob_lines ex_line1_noKind)
  from SimLog_parseAll_generic [OF cover l0 h0, of ex_imports] obtain evs p where
    evs: "SimLog_parseAll ex_imports [2, 0, 1] ex_blob = Some (Inr evs)"
      "length evs = length (split_lines ex_blob)"
    and p: "evs ! 0 = Plain p" "raw p = split_lines ex_blob ! 0" "logIndex p = 0"
      "actionId p = None"
      "timestampMatch (split_lines ex_blob ! 0) = None \<longrightarrow>
         timestamp p = 0 \<and> source p = None \<and> target p = None"
    by (elim exE conjE) (rule that)
  from SimLog_parseAll_generic [OF cover l1 h1, of ex_imports] obtain evs' q where
    evs': "SimLog_parseAll ex_imports [2, 0, 1] ex_blob = Some (Inr evs')"
    and q0: "evs' ! 1 = Plain q" "q = header (split_lines ex_blob ! 1) 1"
    by (elim exE conjE) (rule that)
  from evs(1) evs' have "evs' = evs" by simp
  with q0 have q: "evs ! 1 = Plain q" "q = header (split_lines ex_blob ! 1) 1" by simp_all
  from q(2) have q': "q = header ''[2.0] [Bob (#1)] hello'' 1" by (simp add: ex_blob_lines)
  have e1: "length evs = 3" using evs(2) by (simp add: ex_blob_lines)
  have p1: "raw p = ''Start''" using p(2) by (simp add: ex_blob_lines)
  have p2: "timestamp p = 0" "source p = None" "target p = None"
    using p(5) by (simp_all add: ex_blob_lines ex_line0_noTimestamp)
  have q1: "raw q = ''[2.0] [Bob (#1)] hello''" "logIndex q = 1" "actionId q = None"
    "timestamp q = 2"
    unfolding q' ex_line1_header by simp_all
  from cover l1 h0 h1 evs(1) e1 p(1) p1 p(3) p(4) p2 q(1) q1 show ?thesis
    by (intro conjI exI [of _ evs] exI [of _ p] exI [of _ q]) assumption+
qed

text \<open>
  The timestamp need not lead the line. A line that starts with other text and has a
  bracketed timestamp further on gets that timestamp, and its entities; it is classified
  like any other line, here as a completed cast.
\<close>

theorem SimLog_parseAll_generic_counterexample:
  "\<not> leadingTimestamp ''x [1.5] y'' \<and>
   SimLog_parseAll ex_imports [0] ''x [1.5] y'' =
     Some (Inr [Plain \<lparr> raw = ''x [1.5] y'', logIndex = 0, timestamp = 3 / 2, source = None,
                         target = None, actionId = None, spellSchool = None, threat = 0 \<rparr>]) \<and>
   \<not> leadingTimestamp ''x [2.5] [Bo (#1)] Completed cast F'' \<and>
   SimLog_parseAll ex_imports [0] ''x [2.5] [Bo (#1)] Completed cast F'' =
     Some (Inr [CastCompleted
       \<lparr> raw = ''x [2.5] [Bo (#1)] Completed cast F'', logIndex = 0, timestamp = 5 / 2,
         source = Some \<lparr> name = ''Bo'', ownerName = [], index = 0, isTarget = False,
                         isPet = False \<rparr>,
         target = None, actionId = Some (''F'', Some 0), spellSchool = None, threat = 0 \<rparr>])"
  by (simp add: leadingTimestamp_def SimLog_parseAll_def Promise_all_def parse_eval re_eval
      val_eval)

end
